theory Spec2Isabelle
  imports Main
begin

section \<open>Strings and POSIX paths\<close>

text \<open>
  \<^verbatim>\<open>badge.js\<close> works on JavaScript strings through \<^verbatim>\<open>String.prototype.toLowerCase\<close>
  and the POSIX flavour of Node's \<^verbatim>\<open>path\<close> module (the README assumes macOS). Strings are
  modelled as \<^typ>\<open>string\<close>, a list of 8-bit characters (the UTF-8 bytes of the text), and the
  library functions are modelled from their Node implementation.
\<close>

type_synonym path = string
type_synonym buffer = string

text \<open>
  \<^verbatim>\<open>toLowerCase\<close> on the ASCII letters; every other byte is left alone. No character
  outside ASCII lowercases to one of the letters of \<^verbatim>\<open>png\<close>, \<^verbatim>\<open>jpg\<close> or \<^verbatim>\<open>jpeg\<close>, so the
  comparisons of the extension below are not affected by the restriction.
\<close>

definition lower_char :: "char \<Rightarrow> char" where
  "lower_char c =
     (case map_of (zip ''ABCDEFGHIJKLMNOPQRSTUVWXYZ'' ''abcdefghijklmnopqrstuvwxyz'') c of
        Some d \<Rightarrow> d
      | None \<Rightarrow> c)"

definition toLowerCase :: "string \<Rightarrow> string" where
  "toLowerCase s = map lower_char s"

definition is_slash :: "char \<Rightarrow> bool" where
  "is_slash c = (c = CHR ''/'')"

definition is_dot :: "char \<Rightarrow> bool" where
  "is_dot c = (c = CHR ''.'')"

text \<open>The slashes a path ends with, and its last component once they are dropped.\<close>

definition trailing_slashes :: "path \<Rightarrow> string" where
  "trailing_slashes p = takeWhile is_slash (rev p)"

definition last_component :: "path \<Rightarrow> string" where
  "last_component p = rev (takeWhile (\<lambda>c. \<not> is_slash c) (dropWhile is_slash (rev p)))"

text \<open>
  \<^verbatim>\<open>path.extname\<close>: the part of the last component from its last dot on; empty when the
  component has no dot, when nothing stands before the last dot, and for \<^verbatim>\<open>..\<close>.
\<close>

definition extname :: "path \<Rightarrow> string" where
  "extname p =
     (let seg = last_component p;
          after_dot = rev (takeWhile (\<lambda>c. \<not> is_dot c) (rev seg));
          before_dot = take (length seg - length after_dot - 1) seg
      in if \<not> list_ex is_dot seg \<or> before_dot = [] \<or> seg = ''..'' then []
         else CHR ''.'' # after_dot)"

definition ends_with :: "string \<Rightarrow> string \<Rightarrow> bool" where
  "ends_with s suffix =
     (length suffix \<le> length s \<and> drop (length s - length suffix) s = suffix)"

text \<open>
  \<^verbatim>\<open>path.basename(path, suffix)\<close>. The scan runs from the end of the path over the last
  component and compares it with the suffix from the right: a suffix that is all of the
  component is not removed, and when the component runs out before the suffix does the
  slice reaches to the end of the path.
\<close>

definition basename :: "path \<Rightarrow> string \<Rightarrow> string" where
  "basename p suffix =
     (let seg = last_component p in
      if suffix \<noteq> [] \<and> length suffix \<le> length p then
        (if suffix = p then []
         else if length suffix < length seg \<and> ends_with seg suffix
           then take (length seg - length suffix) seg
         else if length seg < length suffix \<and> ends_with suffix seg
           then seg @ trailing_slashes p
         else seg)
      else seg)"

text \<open>\<^verbatim>\<open>path.normalize\<close> and \<^verbatim>\<open>path.join\<close>, on the list of the components of a path.\<close>

fun split_slash :: "string \<Rightarrow> string list" where
  "split_slash [] = [[]]"
| "split_slash (c # cs) =
     (if is_slash c then [] # split_slash cs
      else (case split_slash cs of
              [] \<Rightarrow> [[c]]
            | s # ss \<Rightarrow> (c # s) # ss))"

fun join_slash :: "string list \<Rightarrow> string" where
  "join_slash [] = []"
| "join_slash [s] = s"
| "join_slash (s # t # ss) = s @ ''/'' @ join_slash (t # ss)"

definition norm_step :: "bool \<Rightarrow> string list \<Rightarrow> string \<Rightarrow> string list" where
  "norm_step allowAboveRoot res seg =
     (if seg = [] \<or> seg = ''.'' then res
      else if seg = ''..'' then
        (if res \<noteq> [] \<and> last res \<noteq> ''..'' then butlast res
         else if allowAboveRoot then res @ [''..'']
         else res)
      else res @ [seg])"

definition normalizeString :: "string \<Rightarrow> bool \<Rightarrow> string" where
  "normalizeString p allowAboveRoot =
     join_slash (foldl (norm_step allowAboveRoot) [] (split_slash p))"

definition normalize :: "path \<Rightarrow> path" where
  "normalize p =
     (if p = [] then ''.''
      else
        let isAbsolute = is_slash (hd p);
            trailingSeparator = is_slash (last p);
            q = normalizeString p (\<not> isAbsolute)
        in if q = [] then (if isAbsolute then ''/'' else if trailingSeparator then ''./'' else ''.'')
           else (if isAbsolute then ''/'' else []) @ q @ (if trailingSeparator then ''/'' else []))"

definition path_join :: "string list \<Rightarrow> path" where
  "path_join args =
     (let parts = filter (\<lambda>a. a \<noteq> []) args in
      if parts = [] then ''.'' else normalize (join_slash parts))"

section \<open>Helpers of \<^verbatim>\<open>badge.js\<close>\<close>

definition isJpeg :: "string \<Rightarrow> bool" where
  "isJpeg ext = (ext = ''.jpg'' \<or> ext = ''.jpeg'')"

definition isPng :: "string \<Rightarrow> bool" where
  "isPng ext = (ext = ''.png'')"

definition baseNameNoExt :: "path \<Rightarrow> string" where
  "baseNameNoExt filePath = basename filePath (extname filePath)"

definition withExt :: "path \<Rightarrow> string \<Rightarrow> string \<Rightarrow> path" where
  "withExt outDir base ext = path_join [outDir, base @ ext]"

section \<open>The derivatives of a source file\<close>

text \<open>
  The options \<^verbatim>\<open>convertAndCompressOne\<close> hands to sharp: \<^verbatim>\<open>.jpeg({quality, mozjpeg})\<close> and
  \<^verbatim>\<open>.webp({quality})\<close>.
\<close>

datatype encode_options = JpegOptions nat bool | WebpOptions nat

text \<open>
  The branches of \<^verbatim>\<open>convertAndCompressOne\<close>: the target extension and the encoder options
  of every task it pushes, in the order of the pushes. The last branch is the early return
  with \<^verbatim>\<open>skipped: true\<close>.
\<close>

definition planned :: "path \<Rightarrow> (string \<times> encode_options) list" where
  "planned srcPath =
     (let ext = toLowerCase (extname srcPath) in
      if isPng ext then [(''.jpg'', JpegOptions 90 True), (''.webp'', WebpOptions 85)]
      else if isJpeg ext then [(''.webp'', WebpOptions 85)]
      else [])"

text \<open>
  The specification's reading of the same rule, in two stages: a classifier that matches
  the extension without regard to case, and a planner on the kind it returns.
\<close>

datatype source_kind = Png | Jpeg | Unsupported

definition equal_ignoring_case :: "string \<Rightarrow> string \<Rightarrow> bool" where
  "equal_ignoring_case a b = (map lower_char a = map lower_char b)"

definition classify :: "string \<Rightarrow> source_kind" where
  "classify ext =
     (if equal_ignoring_case ext ''.png'' then Png
      else if equal_ignoring_case ext ''.jpg'' \<or> equal_ignoring_case ext ''.jpeg'' then Jpeg
      else Unsupported)"

fun derivative_plan :: "source_kind \<Rightarrow> (string \<times> encode_options) list" where
  "derivative_plan Png = [(''.jpg'', JpegOptions 90 True), (''.webp'', WebpOptions 85)]"
| "derivative_plan Jpeg = [(''.webp'', WebpOptions 85)]"
| "derivative_plan Unsupported = []"

section \<open>Errors\<close>

text \<open>
  \<^verbatim>\<open>badge.js\<close> throws plain \<^verbatim>\<open>Error\<close> objects told apart by their message, and lets the
  rejections of its collaborators pass through. One constructor stands for each place an
  error comes from.
\<close>

datatype error =
    MissingApiKey                \<comment> \<open>thrown when \<^verbatim>\<open>API_KEY\<close> is falsy\<close>
  | ShrinkFailed int string      \<comment> \<open>thrown on a status of \<^verbatim>\<open>/shrink\<close> outside 200..299\<close>
  | MissingLocation              \<comment> \<open>thrown when \<^verbatim>\<open>headers.location\<close> is falsy\<close>
  | DownloadFailed int           \<comment> \<open>thrown on a status of the download outside 200..299\<close>
  | AxiosRejected string         \<comment> \<open>\<^verbatim>\<open>axios.post\<close> or \<^verbatim>\<open>axios.get\<close> rejected: no response arrived\<close>
  | SharpRejected string         \<comment> \<open>\<^verbatim>\<open>sharp(...).toBuffer()\<close> rejected\<close>
  | WriteRejected string         \<comment> \<open>\<^verbatim>\<open>fs.writeFile\<close> rejected\<close>
  | SetupRejected string         \<comment> \<open>\<^verbatim>\<open>fs.mkdir\<close> or \<^verbatim>\<open>glob\<close> rejected\<close>

text \<open>The error taxonomy of the specification, and the kind it gives each error.\<close>

datatype error_kind =
  ConfigurationError | UploadError | DownloadError | EncodingError
  | UnrecoverableSetupError | OtherError

fun kind_of :: "error \<Rightarrow> error_kind" where
  "kind_of MissingApiKey = ConfigurationError"
| "kind_of (ShrinkFailed st msg) = UploadError"
| "kind_of MissingLocation = UploadError"
| "kind_of (DownloadFailed st) = DownloadError"
| "kind_of (SharpRejected msg) = EncodingError"
| "kind_of (SetupRejected msg) = UnrecoverableSetupError"
| "kind_of (AxiosRejected msg) = OtherError"
| "kind_of (WriteRejected msg) = OtherError"

section \<open>The remote compressor\<close>

text \<open>
  What \<^verbatim>\<open>badge.js\<close> reads of an axios response: the status, the \<^verbatim>\<open>location\<close> header,
  \<^verbatim>\<open>data?.message\<close>, \<^verbatim>\<open>JSON.stringify(data)\<close> and the body. A call of axios settles either
  with a response or, when no response arrives, with a rejection (\<open>Inl\<close>, with its
  message); \<^verbatim>\<open>validateStatus: () => true\<close> makes every status a response.
\<close>

record response =
  r_status :: int
  r_location :: "string option"
  r_message :: "string option"
  r_json :: string
  r_data :: buffer

definition non_2xx :: "int \<Rightarrow> bool" where
  "non_2xx st = (st < 200 \<or> st \<ge> 300)"

text \<open>
  The text the \<^verbatim>\<open>Authorization\<close> header is made of; the header is \<^verbatim>\<open>Basic\<close> followed by
  its base64 encoding, which is not modelled.
\<close>

definition credentials :: "string \<Rightarrow> string" where
  "credentials key = ''api:'' @ key"

definition shrink_url :: string where
  "shrink_url = ''https://api.tinify.com/shrink''"

text \<open>\<^verbatim>\<open>tinifyCompressBuffer\<close> from the answer of \<^verbatim>\<open>axios.post\<close> to the second request.\<close>

definition after_shrink :: "string + response \<Rightarrow> error + string" where
  "after_shrink settled =
     (case settled of
        Inl rejection \<Rightarrow> Inl (AxiosRejected rejection)
      | Inr shrinkRes \<Rightarrow>
          if non_2xx (r_status shrinkRes) then
            Inl (ShrinkFailed (r_status shrinkRes)
                   (case r_message shrinkRes of
                      None \<Rightarrow> r_json shrinkRes
                    | Some m \<Rightarrow> if m = [] then r_json shrinkRes else m))
          else
            (case r_location shrinkRes of
               None \<Rightarrow> Inl MissingLocation
             | Some outputUrl \<Rightarrow> if outputUrl = [] then Inl MissingLocation else Inr outputUrl))"

text \<open>\<^verbatim>\<open>tinifyCompressBuffer\<close> from the answer of \<^verbatim>\<open>axios.get\<close> to its return.\<close>

definition after_download :: "string + response \<Rightarrow> error + buffer" where
  "after_download settled =
     (case settled of
        Inl rejection \<Rightarrow> Inl (AxiosRejected rejection)
      | Inr outRes \<Rightarrow>
          if non_2xx (r_status outRes) then Inl (DownloadFailed (r_status outRes))
          else Inr (r_data outRes))"

text \<open>
  The check \<^verbatim>\<open>tinifyCompressBuffer\<close> opens with: \<^verbatim>\<open>API_KEY\<close> is \<^verbatim>\<open>undefined\<close> (\<open>None\<close>) or
  a string, and both \<^verbatim>\<open>undefined\<close> and the empty string are falsy.
\<close>

definition check_key :: "string option \<Rightarrow> error + string" where
  "check_key key =
     (case key of
        None \<Rightarrow> Inl MissingApiKey
      | Some k \<Rightarrow> if k = [] then Inl MissingApiKey else Inr (credentials k))"

text \<open>
  \<^verbatim>\<open>tinifyCompressBuffer\<close>, given the key and what the two requests of this call settle
  with (\<open>post url body auth\<close> and \<open>get url auth\<close>).
\<close>

definition tinifyCompressBuffer ::
  "string option \<Rightarrow> (string \<Rightarrow> buffer \<Rightarrow> string \<Rightarrow> string + response) \<Rightarrow>
   (string \<Rightarrow> string \<Rightarrow> string + response) \<Rightarrow> buffer \<Rightarrow> error + buffer" where
  "tinifyCompressBuffer key post get inputBuffer =
     (case check_key key of
        Inl e \<Rightarrow> Inl e
      | Inr auth \<Rightarrow>
          (case after_shrink (post shrink_url inputBuffer auth) of
             Inl e \<Rightarrow> Inl e
           | Inr outputUrl \<Rightarrow> after_download (get outputUrl auth)))"

section \<open>The world outside the program\<close>

text \<open>
  Everything \<^verbatim>\<open>badge.js\<close> asks of its environment. Every asynchronous operation settles,
  with a rejection message (\<open>Inl\<close>, or \<open>Some\<close> for an operation without a value) or with its
  value. The requests of a derivative task are answered per task, named by its source and
  output paths: nothing is assumed about how the service or the disk treats two tasks.
\<close>

type_synonym caller = "path \<times> path"

record world =
  cwd :: path                                                      \<comment> \<open>\<^verbatim>\<open>process.cwd()\<close>\<close>
  API_KEY :: "string option"                                       \<comment> \<open>\<^verbatim>\<open>process.env.TINYPNG_API_KEY\<close>\<close>
  mkdir :: "path \<Rightarrow> string option"                                 \<comment> \<open>\<^verbatim>\<open>fs.mkdir(dir, {recursive: true})\<close>\<close>
  glob :: "string \<Rightarrow> string + path list"                           \<comment> \<open>\<^verbatim>\<open>glob(pattern)\<close>\<close>
  sharp_toBuffer :: "path \<Rightarrow> encode_options \<Rightarrow> string + buffer"    \<comment> \<open>\<^verbatim>\<open>sharp(src).jpeg/webp(opts).toBuffer()\<close>\<close>
  axios_post :: "caller \<Rightarrow> string \<Rightarrow> buffer \<Rightarrow> string \<Rightarrow> string + response"
  axios_get :: "caller \<Rightarrow> string \<Rightarrow> string \<Rightarrow> string + response"
  writeFile :: "caller \<Rightarrow> path \<Rightarrow> buffer \<Rightarrow> string option"         \<comment> \<open>\<^verbatim>\<open>fs.writeFile(path, data)\<close>\<close>
  files_before :: "path \<rightharpoonup> buffer"                                \<comment> \<open>the files present at the start\<close>

definition ROOT :: "world \<Rightarrow> path" where
  "ROOT w = cwd w"

definition BEFORE_DIR :: "world \<Rightarrow> path" where
  "BEFORE_DIR w = path_join [ROOT w, ''before'']"

definition AFTER_DIR :: "world \<Rightarrow> path" where
  "AFTER_DIR w = path_join [ROOT w, ''after'']"

section \<open>Derivative tasks\<close>

text \<open>
  A task is one of the \<^verbatim>\<open>async\<close> closures \<^verbatim>\<open>convertAndCompressOne\<close> starts. It runs until it
  waits for the environment, so between two steps of the event loop it is in one of four
  places: waiting for sharp, for the upload, for the download, or for the write.
\<close>

datatype stage =
    Encoding
  | Uploading buffer string      \<comment> \<open>the encoded buffer and \<^verbatim>\<open>auth\<close>\<close>
  | Downloading string string    \<comment> \<open>\<^verbatim>\<open>outputUrl\<close> and \<^verbatim>\<open>auth\<close>\<close>
  | Writing buffer               \<comment> \<open>\<^verbatim>\<open>compressed\<close>\<close>

record task =
  t_src :: path
  t_out :: path
  t_opts :: encode_options
  t_stage :: stage

definition caller_of :: "task \<Rightarrow> caller" where
  "caller_of t = (t_src t, t_out t)"

text \<open>The tasks \<^verbatim>\<open>convertAndCompressOne\<close> pushes for a source, each just started.\<close>

definition tasks_of :: "world \<Rightarrow> path \<Rightarrow> task list" where
  "tasks_of w srcPath =
     map (\<lambda>(ext, opts).
            \<lparr>t_src = srcPath, t_out = withExt (AFTER_DIR w) (baseNameNoExt srcPath) ext,
             t_opts = opts, t_stage = Encoding\<rparr>)
         (planned srcPath)"

text \<open>
  What happens to a task when the operation it waits for settles: it rejects, it goes on to
  wait for the next operation, or its file has been written and it fulfils.
\<close>

datatype progress = Rejected error | Advanced stage | Written buffer

definition resume :: "world \<Rightarrow> task \<Rightarrow> progress" where
  "resume w t =
     (case t_stage t of
        Encoding \<Rightarrow>
          (case sharp_toBuffer w (t_src t) (t_opts t) of
             Inl rejection \<Rightarrow> Rejected (SharpRejected rejection)
           | Inr buf \<Rightarrow>
               (case check_key (API_KEY w) of
                  Inl e \<Rightarrow> Rejected e
                | Inr auth \<Rightarrow> Advanced (Uploading buf auth)))
      | Uploading buf auth \<Rightarrow>
          (case after_shrink (axios_post w (caller_of t) shrink_url buf auth) of
             Inl e \<Rightarrow> Rejected e
           | Inr outputUrl \<Rightarrow> Advanced (Downloading outputUrl auth))
      | Downloading outputUrl auth \<Rightarrow>
          (case after_download (axios_get w (caller_of t) outputUrl auth) of
             Inl e \<Rightarrow> Rejected e
           | Inr compressed \<Rightarrow> Advanced (Writing compressed))
      | Writing compressed \<Rightarrow>
          (case writeFile w (caller_of t) (t_out t) compressed of
             Some rejection \<Rightarrow> Rejected (WriteRejected rejection)
           | None \<Rightarrow> Written compressed))"

section \<open>The batch\<close>

text \<open>The objects \<^verbatim>\<open>convertAndCompressOne\<close> returns and \<^verbatim>\<open>main\<close> collects in \<^verbatim>\<open>results\<close>.\<close>

record outcome =
  srcPath :: path
  outputs :: "path list"
  skipped :: bool

text \<open>
  The trace of a run: the lines \<^verbatim>\<open>main\<close> prints (with the values they are built from in
  place of their text) and the moments a source is taken up, a task starts, a file is
  written and a task settles.
\<close>

datatype event =
    LogNoTargets                        \<comment> \<open>the notice printed when there is nothing to do\<close>
  | LogInput nat                        \<comment> \<open>the number of files\<close>
  | LogOutputDir path
  | LogSkip path                        \<comment> \<open>\<^verbatim>\<open>SKIP: f\<close>\<close>
  | LogOk path "path list"              \<comment> \<open>\<^verbatim>\<open>OK: f -> outputs\<close>\<close>
  | LogError path error                 \<comment> \<open>\<^verbatim>\<open>ERROR: f : message\<close>, on standard error\<close>
  | LogDone nat nat                     \<comment> \<open>the last line: \<^verbatim>\<open>okCount/files.length\<close>\<close>
  | LogFatal error                      \<comment> \<open>the handler of \<^verbatim>\<open>main().catch\<close>\<close>
  | Taken path                          \<comment> \<open>\<^verbatim>\<open>convertAndCompressOne(f)\<close> is called\<close>
  | Started path path                   \<comment> \<open>a task of the source starts, for the output path\<close>
  | Wrote path path buffer              \<comment> \<open>a task of the source wrote the output path\<close>
  | Settled path path "error option"    \<comment> \<open>a task fulfilled (\<open>None\<close>) or rejected\<close>

text \<open>
  The state between two steps of the event loop. \<open>awaiting\<close> is the source \<^verbatim>\<open>main\<close> waits
  for together with the tasks of its \<^verbatim>\<open>Promise.all\<close> that have not settled (\<open>None\<close> once \<^verbatim>\<open>main\<close>
  has returned), \<open>todo\<close> the sources the loop has not reached, and \<open>detached\<close> the tasks still
  running whose \<^verbatim>\<open>Promise.all\<close> has already rejected.
\<close>

record state =
  todo :: "path list"
  awaiting :: "(path \<times> task list) option"
  detached :: "task list"
  results :: "outcome list"
  trace :: "event list"
  disk :: "path \<rightharpoonup> buffer"
  total :: nat
  fatal :: "error option"

definition pending :: "state \<Rightarrow> task list" where
  "pending s = (case awaiting s of None \<Rightarrow> [] | Some (f, ts) \<Rightarrow> ts)"

definition okCount :: "outcome list \<Rightarrow> nat" where
  "okCount rs = length (filter (\<lambda>r. \<not> skipped r \<and> outputs r \<noteq> []) rs)"

text \<open>
  The \<^verbatim>\<open>for\<close> loop of \<^verbatim>\<open>main\<close> from the head of the remaining sources to its next wait: a
  source without tasks is skipped at once, a source with tasks starts them all and is
  awaited, and after the last source the final line is printed and \<^verbatim>\<open>main\<close> returns.
\<close>

fun main_loop :: "world \<Rightarrow> path list \<Rightarrow> state \<Rightarrow> state" where
  "main_loop w [] s =
     s\<lparr>todo := [], awaiting := None,
       trace := trace s @ [LogDone (okCount (results s)) (total s)]\<rparr>"
| "main_loop w (f # fs) s =
     (let tasks = tasks_of w f in
      if tasks = [] then
        main_loop w fs
          (s\<lparr>results := results s @ [\<lparr>srcPath = f, outputs = [], skipped = True\<rparr>],
             trace := trace s @ [Taken f, LogSkip f]\<rparr>)
      else
        s\<lparr>todo := fs, awaiting := Some (f, tasks),
          trace := trace s @ Taken f # map (\<lambda>t. Started f (t_out t)) tasks\<rparr>)"

definition without :: "nat \<Rightarrow> 'a list \<Rightarrow> 'a list" where
  "without i xs = take i xs @ drop (Suc i) xs"

text \<open>
  A step of task \<open>i\<close> of the awaited source \<open>f\<close>. When it rejects, \<^verbatim>\<open>Promise.all\<close> rejects at
  once: \<^verbatim>\<open>main\<close> prints the error and goes on with the loop, and the other tasks of the
  source keep running. When it fulfils and was the last one, \<^verbatim>\<open>main\<close> records the outcome,
  prints it and goes on with the loop.
\<close>

definition step_awaited :: "world \<Rightarrow> path \<Rightarrow> task list \<Rightarrow> nat \<Rightarrow> state \<Rightarrow> state" where
  "step_awaited w f ts i s =
     (let t = ts ! i in
      case resume w t of
        Rejected e \<Rightarrow>
          main_loop w (todo s)
            (s\<lparr>detached := detached s @ without i ts,
               trace := trace s @ [Settled (t_src t) (t_out t) (Some e), LogError f e]\<rparr>)
      | Advanced st \<Rightarrow> s\<lparr>awaiting := Some (f, ts[i := t\<lparr>t_stage := st\<rparr>])\<rparr>
      | Written compressed \<Rightarrow>
          if without i ts \<noteq> [] then
            s\<lparr>awaiting := Some (f, without i ts),
              trace := trace s @ [Wrote (t_src t) (t_out t) compressed,
                                  Settled (t_src t) (t_out t) None],
              disk := (disk s)(t_out t \<mapsto> compressed)\<rparr>
          else
            (let outs = map t_out (tasks_of w f) in
             main_loop w (todo s)
               (s\<lparr>results := results s @ [\<lparr>srcPath = f, outputs = outs, skipped = False\<rparr>],
                  trace := trace s @ [Wrote (t_src t) (t_out t) compressed,
                                      Settled (t_src t) (t_out t) None,
                                      LogOk f outs],
                  disk := (disk s)(t_out t \<mapsto> compressed)\<rparr>)))"

text \<open>A step of task \<open>j\<close> of those nobody waits for any more.\<close>

definition step_detached :: "world \<Rightarrow> nat \<Rightarrow> state \<Rightarrow> state" where
  "step_detached w j s =
     (let t = detached s ! j in
      case resume w t of
        Rejected e \<Rightarrow>
          s\<lparr>detached := without j (detached s),
            trace := trace s @ [Settled (t_src t) (t_out t) (Some e)]\<rparr>
      | Advanced st \<Rightarrow> s\<lparr>detached := (detached s)[j := t\<lparr>t_stage := st\<rparr>]\<rparr>
      | Written compressed \<Rightarrow>
          s\<lparr>detached := without j (detached s),
            trace := trace s @ [Wrote (t_src t) (t_out t) compressed,
                                Settled (t_src t) (t_out t) None],
            disk := (disk s)(t_out t \<mapsto> compressed)\<rparr>)"

text \<open>
  One step of the event loop: the operation one of the running tasks waits for settles.
  Which one is the choice of the environment, given as a number into the running tasks
  (the awaited ones first). With no task running the state stays as it is.
\<close>

definition step :: "world \<Rightarrow> nat \<Rightarrow> state \<Rightarrow> state" where
  "step w k s =
     (let n = length (pending s) + length (detached s) in
      if n = 0 then s
      else
        let i = k mod n in
        case awaiting s of
          None \<Rightarrow> step_detached w i s
        | Some (f, ts) \<Rightarrow>
            if i < length ts then step_awaited w f ts i s
            else step_detached w (i - length ts) s)"

definition run :: "world \<Rightarrow> nat list \<Rightarrow> state \<Rightarrow> state" where
  "run w schedule s = foldl (\<lambda>s k. step w k s) s schedule"

text \<open>\<^verbatim>\<open>[...new Set(xs)]\<close>: the elements in the order of their first occurrence.\<close>

definition Set_add :: "'a list \<Rightarrow> 'a \<Rightarrow> 'a list" where
  "Set_add seen x = (if x \<in> set seen then seen else seen @ [x])"

definition new_Set :: "'a list \<Rightarrow> 'a list" where
  "new_Set xs = foldl Set_add [] xs"

text \<open>
  \<^verbatim>\<open>Promise.all(patterns.map((p) => glob(p)))\<close>: the lists of all patterns, or a rejection
  when a pattern rejects (the first in the order of the patterns is reported).
\<close>

fun glob_all :: "world \<Rightarrow> string list \<Rightarrow> string + path list list" where
  "glob_all w [] = Inr []"
| "glob_all w (p # ps) =
     (case glob w p of
        Inl rejection \<Rightarrow> Inl rejection
      | Inr found \<Rightarrow>
          (case glob_all w ps of
             Inl rejection \<Rightarrow> Inl rejection
           | Inr rest \<Rightarrow> Inr (found # rest)))"

definition patterns :: "world \<Rightarrow> string list" where
  "patterns w =
     [path_join [BEFORE_DIR w, ''**/*.png''],
      path_join [BEFORE_DIR w, ''**/*.jpg''],
      path_join [BEFORE_DIR w, ''**/*.jpeg'']]"

definition idle :: "world \<Rightarrow> state" where
  "idle w =
     \<lparr>todo = [], awaiting = None, detached = [], results = [], trace = [],
      disk = files_before w, total = 0, fatal = None\<rparr>"

definition crash :: "world \<Rightarrow> error \<Rightarrow> state" where
  "crash w e = (idle w)\<lparr>trace := [LogFatal e], fatal := Some e\<rparr>"

text \<open>
  The files \<^verbatim>\<open>main\<close> enumerates, when \<^verbatim>\<open>ensureDirs\<close> and the globs succeed.
\<close>

definition enumerate_files :: "world \<Rightarrow> error + path list" where
  "enumerate_files w =
     (case mkdir w (AFTER_DIR w) of
        Some rejection \<Rightarrow> Inl (SetupRejected rejection)
      | None \<Rightarrow>
          (case glob_all w (patterns w) of
             Inl rejection \<Rightarrow> Inl (SetupRejected rejection)
           | Inr filesNested \<Rightarrow> Inr (new_Set (concat filesNested))))"

text \<open>
  \<^verbatim>\<open>main\<close> up to its first wait for a task. An error of the setup leaves \<^verbatim>\<open>main\<close> and reaches
  the handler of \<^verbatim>\<open>main().catch\<close>.
\<close>

definition main :: "world \<Rightarrow> state" where
  "main w =
     (case enumerate_files w of
        Inl e \<Rightarrow> crash w e
      | Inr files \<Rightarrow>
          if length files = 0 then (idle w)\<lparr>trace := [LogNoTargets]\<rparr>
          else
            main_loop w files
              ((idle w)\<lparr>total := length files,
                        trace := [LogInput (length files), LogOutputDir (AFTER_DIR w)]\<rparr>))"

text \<open>
  The exit code, once the process has ended: 1 from the handler of \<^verbatim>\<open>main().catch\<close>, 0 when
  \<^verbatim>\<open>main\<close> has returned and no task is left running.
\<close>

definition exit_code :: "state \<Rightarrow> nat option" where
  "exit_code s =
     (if fatal s \<noteq> None then Some 1
      else if awaiting s = None \<and> detached s = [] then Some 0
      else None)"

section \<open>Reading a run\<close>

text \<open>
  The closure of a task read as one piece of sequential code: encode, compress
  (\<^verbatim>\<open>writeCompressedFile\<close> calls \<^verbatim>\<open>tinifyCompressBuffer\<close>), write. \<open>Inr\<close> carries the bytes
  written.
\<close>

definition write_result :: "world \<Rightarrow> task \<Rightarrow> buffer \<Rightarrow> error + buffer" where
  "write_result w t compressed =
     (case writeFile w (caller_of t) (t_out t) compressed of
        Some rejection \<Rightarrow> Inl (WriteRejected rejection)
      | None \<Rightarrow> Inr compressed)"

definition compress_for :: "world \<Rightarrow> task \<Rightarrow> buffer \<Rightarrow> error + buffer" where
  "compress_for w t buf =
     tinifyCompressBuffer (API_KEY w) (axios_post w (caller_of t)) (axios_get w (caller_of t)) buf"

definition run_task :: "world \<Rightarrow> task \<Rightarrow> error + buffer" where
  "run_task w t =
     (case sharp_toBuffer w (t_src t) (t_opts t) of
        Inl rejection \<Rightarrow> Inl (SharpRejected rejection)
      | Inr buf \<Rightarrow>
          (case compress_for w t buf of
             Inl e \<Rightarrow> Inl e
           | Inr compressed \<Rightarrow> write_result w t compressed))"

text \<open>The same from the place a running task is in.\<close>

definition rest_of_task :: "world \<Rightarrow> task \<Rightarrow> error + buffer" where
  "rest_of_task w t =
     (case t_stage t of
        Encoding \<Rightarrow> run_task w t
      | Uploading buf auth \<Rightarrow>
          (case after_shrink (axios_post w (caller_of t) shrink_url buf auth) of
             Inl e \<Rightarrow> Inl e
           | Inr outputUrl \<Rightarrow>
               (case after_download (axios_get w (caller_of t) outputUrl auth) of
                  Inl e \<Rightarrow> Inl e
                | Inr compressed \<Rightarrow> write_result w t compressed))
      | Downloading outputUrl auth \<Rightarrow>
          (case after_download (axios_get w (caller_of t) outputUrl auth) of
             Inl e \<Rightarrow> Inl e
           | Inr compressed \<Rightarrow> write_result w t compressed)
      | Writing compressed \<Rightarrow> write_result w t compressed)"

definition origin :: "task \<Rightarrow> task" where
  "origin t = t\<lparr>t_stage := Encoding\<rparr>"

definition succeeds :: "world \<Rightarrow> task \<Rightarrow> bool" where
  "succeeds w t = (case run_task w t of Inl e \<Rightarrow> False | Inr compressed \<Rightarrow> True)"

text \<open>The outcome recorded for a source, as the lines printed for it tell.\<close>

datatype verdict = Succeeded "path list" | Skipped | Failed error

fun verdict_of :: "event \<Rightarrow> (path \<times> verdict) option" where
  "verdict_of (LogSkip f) = Some (f, Skipped)"
| "verdict_of (LogOk f outs) = Some (f, Succeeded outs)"
| "verdict_of (LogError f e) = Some (f, Failed e)"
| "verdict_of ev = None"

definition verdicts :: "event list \<Rightarrow> (path \<times> verdict) list" where
  "verdicts tr = List.map_filter verdict_of tr"

fun taken_of :: "event \<Rightarrow> path option" where
  "taken_of (Taken f) = Some f"
| "taken_of ev = None"

definition taken :: "event list \<Rightarrow> path list" where
  "taken tr = List.map_filter taken_of tr"

text \<open>The process is quiet when no task is running: nothing more will happen.\<close>

definition quiet :: "state \<Rightarrow> bool" where
  "quiet s = (pending s = [] \<and> detached s = [])"

text \<open>A bound on the steps a state has ahead of it.\<close>

fun steps_left :: "stage \<Rightarrow> nat" where
  "steps_left Encoding = 4"
| "steps_left (Uploading buf auth) = 3"
| "steps_left (Downloading outputUrl auth) = 2"
| "steps_left (Writing compressed) = 1"

definition work_of :: "task list \<Rightarrow> nat" where
  "work_of ts = sum_list (map (\<lambda>t. steps_left (t_stage t)) ts)"

definition work :: "world \<Rightarrow> state \<Rightarrow> nat" where
  "work w s =
     work_of (pending s) + work_of (detached s)
     + sum_list (map (\<lambda>f. 4 * length (tasks_of w f)) (todo s))"

definition current :: "state \<Rightarrow> path list" where
  "current s = (case awaiting s of None \<Rightarrow> [] | Some (f, ts) \<Rightarrow> [f])"

fun done_of :: "event \<Rightarrow> (nat \<times> nat) option" where
  "done_of (LogDone n m) = Some (n, m)"
| "done_of ev = None"

definition summary :: "event list \<Rightarrow> (nat \<times> nat) list" where
  "summary tr = List.map_filter done_of tr"

fun write_of :: "event \<Rightarrow> (path \<times> path \<times> buffer) option" where
  "write_of (Wrote src p c) = Some (src, p, c)"
| "write_of ev = None"

definition writes :: "event list \<Rightarrow> (path \<times> path \<times> buffer) list" where
  "writes tr = List.map_filter write_of tr"

definition in_order :: "path list \<Rightarrow> state \<Rightarrow> bool" where
  "in_order files s =
     (fatal s = None \<and> total s = length files
      \<and> map fst (verdicts (trace s)) @ current s @ todo s = files
      \<and> taken (trace s) = map fst (verdicts (trace s)) @ current s
      \<and> (awaiting s = None \<longrightarrow> todo s = [])
      \<and> (\<forall>f ts. awaiting s = Some (f, ts) \<longrightarrow> ts \<noteq> []))"

text \<open>What a recorded outcome has to mean in a world.\<close>

definition judged :: "world \<Rightarrow> path \<Rightarrow> verdict \<Rightarrow> bool" where
  "judged w f v =
     (case v of
        Skipped \<Rightarrow> tasks_of w f = []
      | Succeeded outs \<Rightarrow>
          tasks_of w f \<noteq> [] \<and> outs = map t_out (tasks_of w f)
          \<and> list_all (succeeds w) (tasks_of w f)
      | Failed e \<Rightarrow> list_ex (\<lambda>t. run_task w t = Inl e) (tasks_of w f))"

definition outcome_of :: "path \<times> verdict \<Rightarrow> outcome option" where
  "outcome_of fv =
     (case snd fv of
        Skipped \<Rightarrow> Some \<lparr>srcPath = fst fv, outputs = [], skipped = True\<rparr>
      | Succeeded outs \<Rightarrow> Some \<lparr>srcPath = fst fv, outputs = outs, skipped = False\<rparr>
      | Failed e \<Rightarrow> None)"

definition task_ok :: "world \<Rightarrow> task \<Rightarrow> bool" where
  "task_ok w t =
     (origin t \<in> set (tasks_of w (t_src t)) \<and> rest_of_task w t = run_task w (origin t))"

definition tasks_ok :: "world \<Rightarrow> state \<Rightarrow> bool" where
  "tasks_ok w s =
     ((\<forall>t\<in>set (pending s) \<union> set (detached s). task_ok w t)
      \<and> (\<forall>f ts. awaiting s = Some (f, ts) \<longrightarrow>
            (\<forall>t\<in>set ts. t_src t = f)
            \<and> (\<forall>t0\<in>set (tasks_of w f). t0 \<in> origin ` set ts \<or> succeeds w t0)))"

definition judged_ok :: "world \<Rightarrow> state \<Rightarrow> bool" where
  "judged_ok w s = (\<forall>fv\<in>set (verdicts (trace s)). judged w (fst fv) (snd fv))"

definition tally_ok :: "state \<Rightarrow> bool" where
  "tally_ok s =
     (results s = List.map_filter outcome_of (verdicts (trace s))
      \<and> summary (trace s) =
          (if awaiting s = None then [(okCount (results s), total s)] else []))"

definition detached_failed :: "state \<Rightarrow> bool" where
  "detached_failed s =
     (\<forall>t\<in>set (detached s). \<exists>e. (t_src t, Failed e) \<in> set (verdicts (trace s)))"

definition written_ok :: "world \<Rightarrow> path \<times> path \<times> buffer \<Rightarrow> bool" where
  "written_ok w x =
     (case x of (src, p, c) \<Rightarrow>
        list_ex (\<lambda>t. t_out t = p \<and> run_task w t = Inr c) (tasks_of w src))"

definition writes_ok :: "world \<Rightarrow> state \<Rightarrow> bool" where
  "writes_ok w s =
     ((\<forall>x\<in>set (writes (trace s)). written_ok w x)
      \<and> (\<forall>p c. disk s p = Some c \<longrightarrow>
            files_before w p = Some c \<or> (\<exists>src. (src, p, c) \<in> set (writes (trace s)))))"

text \<open>How many sources got which outcome.\<close>

fun is_succeeded :: "verdict \<Rightarrow> bool" where
  "is_succeeded (Succeeded outs) = True"
| "is_succeeded v = False"

fun is_skipped :: "verdict \<Rightarrow> bool" where
  "is_skipped Skipped = True"
| "is_skipped v = False"

fun is_failed :: "verdict \<Rightarrow> bool" where
  "is_failed (Failed e) = True"
| "is_failed v = False"

definition count_succeeded :: "(path \<times> verdict) list \<Rightarrow> nat" where
  "count_succeeded vs = length (filter (\<lambda>fv. is_succeeded (snd fv)) vs)"

definition count_skipped :: "(path \<times> verdict) list \<Rightarrow> nat" where
  "count_skipped vs = length (filter (\<lambda>fv. is_skipped (snd fv)) vs)"

definition count_failed :: "(path \<times> verdict) list \<Rightarrow> nat" where
  "count_failed vs = length (filter (\<lambda>fv. is_failed (snd fv)) vs)"

text \<open>A source qualifies when it has a derivative; it is encodable when sharp encodes each.\<close>

definition qualifying :: "path \<Rightarrow> bool" where
  "qualifying f = (planned f \<noteq> [])"

definition encodable :: "world \<Rightarrow> path \<Rightarrow> bool" where
  "encodable w f =
     list_all (\<lambda>t. case sharp_toBuffer w (t_src t) (t_opts t) of
                      Inl rejection \<Rightarrow> False
                    | Inr buf \<Rightarrow> True)
              (tasks_of w f)"

text \<open>The remote compressor fails for a source: for one of its tasks, on the encoded buffer.\<close>

definition compressor_fails :: "world \<Rightarrow> path \<Rightarrow> bool" where
  "compressor_fails w f =
     list_ex (\<lambda>t. case sharp_toBuffer w (t_src t) (t_opts t) of
                     Inl rejection \<Rightarrow> False
                   | Inr buf \<Rightarrow> (case compress_for w t buf of Inl e \<Rightarrow> True | Inr c \<Rightarrow> False))
             (tasks_of w f)"

text \<open>
  A source collides at a path when one of its derivatives goes there. A source has settled
  at a path once it has been taken up and none of its tasks for that path is running.
\<close>

definition collides :: "world \<Rightarrow> path \<Rightarrow> path \<Rightarrow> bool" where
  "collides w p g = list_ex (\<lambda>t. t_out t = p) (tasks_of w g)"

definition settled_at :: "path \<Rightarrow> path \<Rightarrow> state \<Rightarrow> bool" where
  "settled_at b p s =
     (b \<in> set (taken (trace s))
      \<and> list_all (\<lambda>t. \<not> (t_src t = b \<and> t_out t = p)) (pending s @ detached s))"

text \<open>
  The source \<open>b\<close>, enumerated after \<open>pre\<close> and before \<open>post\<close>, is the last one with a
  derivative at \<open>p\<close>, its derivative there comes out as \<open>c\<close>, and every earlier source with a
  derivative at \<open>p\<close> succeeds.
\<close>

definition last_writer ::
  "world \<Rightarrow> path list \<Rightarrow> path \<Rightarrow> path list \<Rightarrow> path \<Rightarrow> buffer \<Rightarrow> bool" where
  "last_writer w pre b post p c =
     (collides w p b
      \<and> list_all (\<lambda>t. t_out t = p \<longrightarrow> run_task w t = Inr c) (tasks_of w b)
      \<and> list_all (\<lambda>g. collides w p g \<longrightarrow> list_all (succeeds w) (tasks_of w g)) pre
      \<and> list_all (\<lambda>g. \<not> collides w p g) post)"

definition kept :: "path \<Rightarrow> path \<Rightarrow> buffer \<Rightarrow> state \<Rightarrow> bool" where
  "kept b p c s = (settled_at b p s \<longrightarrow> disk s p = Some c)"

text \<open>Everything that holds of every state a run reaches.\<close>

definition invariant :: "world \<Rightarrow> path list \<Rightarrow> state \<Rightarrow> bool" where
  "invariant w files s =
     (in_order files s \<and> tasks_ok w s \<and> judged_ok w s \<and> tally_ok s \<and> detached_failed s
      \<and> writes_ok w s)"

section \<open>Sample worlds\<close>

definition answer :: "int \<Rightarrow> string option \<Rightarrow> buffer \<Rightarrow> response" where
  "answer st loc body =
     \<lparr>r_status = st, r_location = loc, r_message = None, r_json = ''{}'', r_data = body\<rparr>"

text \<open>
  A project in \<^verbatim>\<open>/proj\<close>: the globs find the given PNG and JPEG files, sharp encodes every
  source but the unreadable ones, the service refuses the uploads of the given tasks with
  status 500 and serves every other, and every write succeeds.
\<close>

definition sample ::
  "string option \<Rightarrow> path list \<Rightarrow> path list \<Rightarrow> (path \<Rightarrow> bool) \<Rightarrow> (caller \<Rightarrow> bool) \<Rightarrow> world" where
  "sample key pngs jpgs unreadable refused =
     \<lparr>cwd = ''/proj'', API_KEY = key, mkdir = (\<lambda>dir. None),
      glob = (\<lambda>pattern. if pattern = ''/proj/before/**/*.png'' then Inr pngs
                         else if pattern = ''/proj/before/**/*.jpg'' then Inr jpgs
                         else Inr []),
      sharp_toBuffer = (\<lambda>src opts. if unreadable src then Inl ''unsupported image format''
                                     else Inr (''raw:'' @ src)),
      axios_post = (\<lambda>c url body auth. if refused c then Inr (answer 500 None [])
                                        else Inr (answer 201 (Some (''https://out/'' @ body)) [])),
      axios_get = (\<lambda>c url auth. Inr (answer 200 None (''tiny:'' @ url))),
      writeFile = (\<lambda>c p data. None),
      files_before = Map.empty\<rparr>"

text \<open>
  Two files with the same base name, \<^verbatim>\<open>a.png\<close> and \<^verbatim>\<open>a.jpg\<close>, where the service refuses the
  upload of the JPEG derivative of \<^verbatim>\<open>a.png\<close>; and the same two files with every upload served.
\<close>

definition a_png :: path where
  "a_png = ''/proj/before/a.png''"

definition a_jpg :: path where
  "a_jpg = ''/proj/before/a.jpg''"

definition one_refused :: world where
  "one_refused =
     sample (Some ''key'') [a_png] [a_jpg] (\<lambda>src. False)
       (\<lambda>c. c = (a_png, ''/proj/after/a.jpg''))"

definition all_served :: world where
  "all_served = sample (Some ''key'') [a_png] [a_jpg] (\<lambda>src. False) (\<lambda>c. False)"

text \<open>A directory without images.\<close>

definition nothing_found :: world where
  "nothing_found = sample (Some ''key'') [] [] (\<lambda>src. False) (\<lambda>c. False)"

text \<open>
  Three files, \<^verbatim>\<open>a.png\<close>, \<^verbatim>\<open>b.png\<close> and \<^verbatim>\<open>c.jpg\<close>, where the service refuses every upload for
  the first two.
\<close>

definition b_png :: path where
  "b_png = ''/proj/before/b.png''"

definition c_jpg :: path where
  "c_jpg = ''/proj/before/c.jpg''"

definition two_refused :: world where
  "two_refused =
     sample (Some ''key'') [a_png, b_png] [c_jpg] (\<lambda>src. False)
       (\<lambda>c. fst c = a_png \<or> fst c = b_png)"

text \<open>
  The same three files, where the service refuses every upload for \<^verbatim>\<open>a.png\<close> only and the
  disk refuses every write for \<^verbatim>\<open>b.png\<close>.
\<close>

definition refused_and_unwritable :: world where
  "refused_and_unwritable =
     (sample (Some ''key'') [a_png, b_png] [c_jpg] (\<lambda>src. False) (\<lambda>c. fst c = a_png))
       \<lparr>writeFile := (\<lambda>c p data. if fst c = b_png then Some ''ENOSPC'' else None)\<rparr>"

text \<open>No key is configured; and no key is configured and \<^verbatim>\<open>a.png\<close> is not an image.\<close>

definition no_key :: world where
  "no_key = sample None [a_png] [a_jpg] (\<lambda>src. False) (\<lambda>c. False)"

definition no_key_bad_image :: world where
  "no_key_bad_image = sample None [a_png] [a_jpg] (\<lambda>src. src = a_png) (\<lambda>c. False)"

text \<open>The globs report \<^verbatim>\<open>a.png\<close> twice.\<close>

definition found_twice :: world where
  "found_twice = sample (Some ''key'') [a_png, a_png] [a_jpg, a_png] (\<lambda>src. False) (\<lambda>c. False)"

section \<open>Facts about paths\<close>

lemma lower_char_literals:
  "map lower_char ''.png'' = ''.png''"
  "map lower_char ''.jpg'' = ''.jpg''"
  "map lower_char ''.jpeg'' = ''.jpeg''"
  by (simp_all add: lower_char_def)

section \<open>The planner\<close>

text \<open>
  C1. The derivatives planned for a source file are a function of its extension alone,
  compared without regard to case: an extension that is \<^verbatim>\<open>.png\<close> up to case gives the JPEG
  derivative (quality 90, mozjpeg) followed by the WebP derivative (quality 85), one that is
  \<^verbatim>\<open>.jpg\<close> or \<^verbatim>\<open>.jpeg\<close> up to case gives the WebP derivative alone, and every other extension
  gives no derivative.
\<close>

theorem planned_by_extension:
  "planned src = derivative_plan (classify (extname src))"
proof -
  define e where "e = map lower_char (extname src)"
  show ?thesis
    unfolding planned_def classify_def equal_ignoring_case_def toLowerCase_def
      isPng_def isJpeg_def lower_char_literals Let_def e_def[symmetric]
    by (cases "e = ''.png''"; cases "e = ''.jpg''"; cases "e = ''.jpeg''") simp_all
qed

lemma extname_examples:
  "extname ''/proj/before/photo.PNG'' = ''.PNG''"
  "extname ''/proj/before/scan.Jpeg'' = ''.Jpeg''"
  "extname ''/proj/before/notes.txt'' = ''.txt''"
  by (simp_all add: extname_def last_component_def is_slash_def is_dot_def)

lemma classify_examples:
  "classify ''.PNG'' = Png"
  "classify ''.Jpeg'' = Jpeg"
  "classify ''.txt'' = Unsupported"
  by (simp_all add: classify_def equal_ignoring_case_def lower_char_def)

theorem planned_by_extension_witness:
  "planned ''/proj/before/photo.PNG'' = [(''.jpg'', JpegOptions 90 True), (''.webp'', WebpOptions 85)]
   \<and> planned ''/proj/before/scan.Jpeg'' = [(''.webp'', WebpOptions 85)]
   \<and> planned ''/proj/before/notes.txt'' = []"
  using planned_by_extension [of "''/proj/before/photo.PNG''"]
    planned_by_extension [of "''/proj/before/scan.Jpeg''"]
    planned_by_extension [of "''/proj/before/notes.txt''"]
  by (simp add: extname_examples classify_examples)

section \<open>The remote compressor, case by case\<close>

lemma non_2xx_examples: "non_2xx 500" "non_2xx 404" "\<not> non_2xx 201" "\<not> non_2xx 200"
  by (simp_all add: non_2xx_def)

text \<open>
  C2 (as amended). \<^verbatim>\<open>tinifyCompressBuffer\<close> fails with the configuration error when no key
  is configured (the variable is unset or empty). With a key it fails with an upload error
  when \<^verbatim>\<open>/shrink\<close> answers with a status outside 200..299 or without a non-empty
  \<^verbatim>\<open>Location\<close> header, with a download error when the download answers with a status outside
  200..299, and with the rejection of axios itself when one of the two requests gets no
  response at all; otherwise it returns the bytes downloaded. These are its only failures.
\<close>

theorem tinifyCompressBuffer_outcomes:
  "(key = None \<or> key = Some [] \<longrightarrow>
      tinifyCompressBuffer key post get buf = Inl MissingApiKey)
   \<and> (\<forall>k. key = Some k \<and> k \<noteq> [] \<longrightarrow>
        (case post shrink_url buf (credentials k) of
           Inl rejection \<Rightarrow> tinifyCompressBuffer key post get buf = Inl (AxiosRejected rejection)
         | Inr shrinkRes \<Rightarrow>
             if non_2xx (r_status shrinkRes) then
               \<exists>msg. tinifyCompressBuffer key post get buf = Inl (ShrinkFailed (r_status shrinkRes) msg)
             else if r_location shrinkRes = None \<or> r_location shrinkRes = Some [] then
               tinifyCompressBuffer key post get buf = Inl MissingLocation
             else
               (case get (the (r_location shrinkRes)) (credentials k) of
                  Inl rejection \<Rightarrow> tinifyCompressBuffer key post get buf = Inl (AxiosRejected rejection)
                | Inr outRes \<Rightarrow>
                    if non_2xx (r_status outRes) then
                      tinifyCompressBuffer key post get buf = Inl (DownloadFailed (r_status outRes))
                    else tinifyCompressBuffer key post get buf = Inr (r_data outRes))))
   \<and> (\<forall>e. tinifyCompressBuffer key post get buf = Inl e \<longrightarrow>
        kind_of e \<in> {ConfigurationError, UploadError, DownloadError} \<or> (\<exists>rejection. e = AxiosRejected rejection))"
proof (intro conjI allI impI)
  assume "key = None \<or> key = Some []"
  then show "tinifyCompressBuffer key post get buf = Inl MissingApiKey"
    by (auto simp: tinifyCompressBuffer_def check_key_def)
next
  fix k assume k: "key = Some k \<and> k \<noteq> []"
  then have ck: "check_key key = Inr (credentials k)"
    by (simp add: check_key_def)
  show "case post shrink_url buf (credentials k) of
           Inl rejection \<Rightarrow> tinifyCompressBuffer key post get buf = Inl (AxiosRejected rejection)
         | Inr shrinkRes \<Rightarrow>
             if non_2xx (r_status shrinkRes) then
               \<exists>msg. tinifyCompressBuffer key post get buf = Inl (ShrinkFailed (r_status shrinkRes) msg)
             else if r_location shrinkRes = None \<or> r_location shrinkRes = Some [] then
               tinifyCompressBuffer key post get buf = Inl MissingLocation
             else
               (case get (the (r_location shrinkRes)) (credentials k) of
                  Inl rejection \<Rightarrow> tinifyCompressBuffer key post get buf = Inl (AxiosRejected rejection)
                | Inr outRes \<Rightarrow>
                    if non_2xx (r_status outRes) then
                      tinifyCompressBuffer key post get buf = Inl (DownloadFailed (r_status outRes))
                    else tinifyCompressBuffer key post get buf = Inr (r_data outRes))"
    by (auto simp: tinifyCompressBuffer_def ck after_shrink_def after_download_def
        split: sum.splits option.splits)
next
  fix e assume "tinifyCompressBuffer key post get buf = Inl e"
  then show "kind_of e \<in> {ConfigurationError, UploadError, DownloadError} \<or> (\<exists>rejection. e = AxiosRejected rejection)"
    by (auto simp: tinifyCompressBuffer_def check_key_def after_shrink_def after_download_def
        split: sum.splits option.splits if_splits)
qed

theorem tinifyCompressBuffer_outcomes_witness:
  "tinifyCompressBuffer None (\<lambda>u b a. Inr (answer 201 (Some ''https://out/1'') [])) (\<lambda>u a. Inr (answer 200 None ''tiny'')) ''raw''
     = Inl MissingApiKey
   \<and> tinifyCompressBuffer (Some ''key'') (\<lambda>u b a. Inr (answer 201 (Some ''https://out/1'') [])) (\<lambda>u a. Inr (answer 200 None ''tiny'')) ''raw''
     = Inr ''tiny''
   \<and> tinifyCompressBuffer (Some ''key'') (\<lambda>u b a. Inr (answer 201 None [])) (\<lambda>u a. Inr (answer 200 None ''tiny'')) ''raw''
     = Inl MissingLocation
   \<and> tinifyCompressBuffer (Some ''key'') (\<lambda>u b a. Inr (answer 201 (Some ''https://out/1'') [])) (\<lambda>u a. Inr (answer 404 None [])) ''raw''
     = Inl (DownloadFailed 404)"
  using tinifyCompressBuffer_outcomes [of None "\<lambda>u b a. Inr (answer 201 (Some ''https://out/1'') [])" "\<lambda>u a. Inr (answer 200 None ''tiny'')" "''raw''"]
    tinifyCompressBuffer_outcomes [of "Some ''key''" "\<lambda>u b a. Inr (answer 201 (Some ''https://out/1'') [])" "\<lambda>u a. Inr (answer 200 None ''tiny'')" "''raw''"]
    tinifyCompressBuffer_outcomes [of "Some ''key''" "\<lambda>u b a. Inr (answer 201 None [])" "\<lambda>u a. Inr (answer 200 None ''tiny'')" "''raw''"]
    tinifyCompressBuffer_outcomes [of "Some ''key''" "\<lambda>u b a. Inr (answer 201 (Some ''https://out/1'') [])" "\<lambda>u a. Inr (answer 404 None [])" "''raw''"]
  by (simp add: answer_def non_2xx_def)

text \<open>
  C2 as stated does not hold: a request that gets no response makes the call fail with an
  error that is none of the three named, and a \<^verbatim>\<open>Location\<close> header that is present but empty
  makes it fail although the header is not omitted.
\<close>

theorem tinifyCompressBuffer_counterexample:
  "tinifyCompressBuffer (Some ''key'') (\<lambda>u b a. Inl ''ECONNRESET'') (\<lambda>u a. Inr (answer 200 None ''tiny'')) ''raw''
     = Inl (AxiosRejected ''ECONNRESET'')
   \<and> kind_of (AxiosRejected ''ECONNRESET'') \<notin> {ConfigurationError, UploadError, DownloadError}
   \<and> tinifyCompressBuffer (Some ''key'') (\<lambda>u b a. Inr (answer 201 (Some []) [])) (\<lambda>u a. Inr (answer 200 None ''tiny'')) ''raw''
     = Inl MissingLocation
   \<and> r_location (answer 201 (Some []) []) \<noteq> None"
  by (simp add: tinifyCompressBuffer_def check_key_def after_shrink_def after_download_def
      answer_def non_2xx_def)

section \<open>Tasks step by step\<close>

lemma resume_Rejected: "resume w t = Rejected e \<Longrightarrow> rest_of_task w t = Inl e"
  by (cases "t_stage t")
     (auto simp: resume_def rest_of_task_def run_task_def compress_for_def
        tinifyCompressBuffer_def write_result_def split: sum.splits option.splits)

lemma resume_Written: "resume w t = Written c \<Longrightarrow> rest_of_task w t = Inr c"
  by (cases "t_stage t")
     (auto simp: resume_def rest_of_task_def write_result_def split: sum.splits option.splits)

lemma caller_of_stage [simp]: "caller_of (t\<lparr>t_stage := st\<rparr>) = caller_of t"
  by (simp add: caller_of_def)

lemma write_result_stage [simp]: "write_result w (t\<lparr>t_stage := st\<rparr>) c = write_result w t c"
  by (simp add: write_result_def)

lemma resume_Advanced:
  "resume w t = Advanced st \<Longrightarrow> rest_of_task w (t\<lparr>t_stage := st\<rparr>) = rest_of_task w t"
  by (cases "t_stage t")
     (auto simp: resume_def rest_of_task_def run_task_def compress_for_def
        tinifyCompressBuffer_def split: sum.splits option.splits)

lemma resume_steps_left:
  "resume w t = Advanced st \<Longrightarrow> steps_left (t_stage t) = Suc (steps_left st)"
  by (cases "t_stage t") (auto simp: resume_def split: sum.splits option.splits)

lemma steps_left_pos: "0 < steps_left st"
  by (cases st) simp_all

lemma origin_stage [simp]: "origin (t\<lparr>t_stage := st\<rparr>) = origin t"
  by (simp add: origin_def)

lemma origin_fields [simp]:
  "t_src (origin t) = t_src t" "t_out (origin t) = t_out t" "t_opts (origin t) = t_opts t"
  by (simp_all add: origin_def)

lemma tasks_of_fresh: "t \<in> set (tasks_of w f) \<Longrightarrow> t_stage t = Encoding \<and> t_src t = f"
  by (auto simp: tasks_of_def)

lemma tasks_of_origin: "t \<in> set (tasks_of w f) \<Longrightarrow> origin t = t"
  by (auto simp: tasks_of_def origin_def)

lemma rest_of_fresh: "t \<in> set (tasks_of w f) \<Longrightarrow> rest_of_task w t = run_task w t"
  by (auto simp: rest_of_task_def dest: tasks_of_fresh)

lemma tasks_of_qualifying: "tasks_of w f \<noteq> [] \<longleftrightarrow> qualifying f"
  by (simp add: tasks_of_def qualifying_def)

section \<open>The loop of main\<close>

lemma main_loop_unchanged [simp]:
  "detached (main_loop w fs s) = detached s"
  "disk (main_loop w fs s) = disk s"
  "total (main_loop w fs s) = total s"
  "fatal (main_loop w fs s) = fatal s"
  by (induction fs arbitrary: s) (simp_all add: Let_def)

lemma work_of_simps [simp]:
  "work_of [] = 0"
  "work_of (t # ts) = steps_left (t_stage t) + work_of ts"
  "work_of (ts @ us) = work_of ts + work_of us"
  by (simp_all add: work_of_def)

lemma work_of_tasks_of: "work_of (tasks_of w f) = 4 * length (tasks_of w f)"
proof -
  have "\<forall>t\<in>set ts. t_stage t = Encoding \<Longrightarrow> work_of ts = 4 * length ts" for ts
    by (induction ts) simp_all
  then show ?thesis
    using tasks_of_fresh by blast
qed

lemma work_main_loop:
  "work w (main_loop w fs s) =
     work_of (detached s) + sum_list (map (\<lambda>f. 4 * length (tasks_of w f)) fs)"
  by (induction fs arbitrary: s)
     (simp_all add: work_def pending_def Let_def work_of_tasks_of)

lemma work_of_without:
  "i < length ts \<Longrightarrow> work_of (without i ts) + steps_left (t_stage (ts ! i)) = work_of ts"
proof -
  assume "i < length ts"
  then have "ts = take i ts @ ts ! i # drop (Suc i) ts"
    by (rule id_take_nth_drop)
  then have "work_of ts = work_of (take i ts @ ts ! i # drop (Suc i) ts)"
    by simp
  then show ?thesis
    by (simp add: without_def)
qed

lemma work_of_update:
  "i < length ts \<Longrightarrow> steps_left (t_stage (ts ! i)) = Suc (steps_left (t_stage t')) \<Longrightarrow>
   Suc (work_of (ts[i := t'])) = work_of ts"
proof -
  assume i: "i < length ts" and st: "steps_left (t_stage (ts ! i)) = Suc (steps_left (t_stage t'))"
  have "ts[i := t'] = take i ts @ t' # drop (Suc i) ts"
    using i by (simp add: upd_conv_take_nth_drop)
  then have "work_of (ts[i := t']) = work_of (take i ts) + steps_left (t_stage t') + work_of (drop (Suc i) ts)"
    by simp
  moreover have "work_of ts = work_of (take i ts) + steps_left (t_stage (ts ! i)) + work_of (drop (Suc i) ts)"
    using work_of_without [OF i] by (simp add: without_def)
  ultimately show ?thesis
    using st by simp
qed

lemma work_step_detached:
  assumes j: "j < length (detached s)"
  shows "work w (step_detached w j s) < work w s"
proof (cases "resume w (detached s ! j)")
  case (Rejected e)
  then show ?thesis
    using work_of_without [OF j] steps_left_pos [of "t_stage (detached s ! j)"]
    by (simp add: step_detached_def work_def pending_def Let_def)
next
  case (Advanced st)
  then show ?thesis
    using work_of_update [OF j, of "(detached s ! j)\<lparr>t_stage := st\<rparr>"] resume_steps_left [OF Advanced]
    by (simp add: step_detached_def work_def pending_def Let_def)
next
  case (Written c)
  then show ?thesis
    using work_of_without [OF j] steps_left_pos [of "t_stage (detached s ! j)"]
    by (simp add: step_detached_def work_def pending_def Let_def)
qed

lemma work_awaiting:
  "awaiting s = Some (f, ts) \<Longrightarrow>
   work w s = work_of ts + work_of (detached s)
              + sum_list (map (\<lambda>f. 4 * length (tasks_of w f)) (todo s))"
  by (simp add: work_def pending_def)

lemma work_step_awaited:
  assumes a: "awaiting s = Some (f, ts)" and i: "i < length ts"
  shows "work w (step_awaited w f ts i s) < work w s"
proof (cases "resume w (ts ! i)")
  case (Rejected e)
  then have "work w (step_awaited w f ts i s) =
      work_of (detached s @ without i ts) + sum_list (map (\<lambda>f. 4 * length (tasks_of w f)) (todo s))"
    by (simp add: step_awaited_def Let_def work_main_loop)
  then show ?thesis
    using work_of_without [OF i] steps_left_pos [of "t_stage (ts ! i)"] work_awaiting [OF a, of w]
    by simp
next
  case (Advanced st)
  then have "step_awaited w f ts i s = s\<lparr>awaiting := Some (f, ts[i := (ts ! i)\<lparr>t_stage := st\<rparr>])\<rparr>"
    by (simp add: step_awaited_def Let_def)
  then show ?thesis
    using work_of_update [OF i, of "(ts ! i)\<lparr>t_stage := st\<rparr>"] resume_steps_left [OF Advanced]
      work_awaiting [OF a, of w]
    by (simp add: work_def pending_def)
next
  case (Written c)
  show ?thesis
  proof (cases "without i ts = []")
    case True
    then have "work w (step_awaited w f ts i s) =
        work_of (detached s) + sum_list (map (\<lambda>f. 4 * length (tasks_of w f)) (todo s))"
      using Written by (simp add: step_awaited_def Let_def work_main_loop)
    then show ?thesis
      using True work_of_without [OF i] steps_left_pos [of "t_stage (ts ! i)"] work_awaiting [OF a, of w]
      by simp
  next
    case False
    then have "work w (step_awaited w f ts i s) =
        work_of (without i ts) + work_of (detached s)
        + sum_list (map (\<lambda>f. 4 * length (tasks_of w f)) (todo s))"
      using Written by (simp add: step_awaited_def Let_def work_def pending_def)
    then show ?thesis
      using work_of_without [OF i] steps_left_pos [of "t_stage (ts ! i)"] work_awaiting [OF a, of w]
      by simp
  qed
qed

lemma quiet_step: "quiet s \<Longrightarrow> step w k s = s"
  by (simp add: quiet_def step_def)

lemma work_step:
  assumes nq: "\<not> quiet s"
  shows "work w (step w k s) < work w s"
proof -
  let ?n = "length (pending s) + length (detached s)"
  have n: "0 < ?n"
    using nq by (auto simp: quiet_def)
  then have lt: "k mod ?n < ?n"
    by simp
  show ?thesis
  proof (cases "awaiting s")
    case None
    then have "step w k s = step_detached w (k mod ?n) s" and "k mod ?n < length (detached s)"
      using n lt by (simp_all add: step_def pending_def)
    then show ?thesis
      using work_step_detached by simp
  next
    case (Some a)
    obtain f ts where a: "a = (f, ts)" by (cases a)
    have p: "pending s = ts"
      using Some a by (simp add: pending_def)
    show ?thesis
    proof (cases "k mod ?n < length ts")
      case True
      then have "step w k s = step_awaited w f ts (k mod ?n) s"
        using Some a n p by (auto simp: step_def Let_def)
      then show ?thesis
        using work_step_awaited [of s f ts "k mod ?n" w] Some a True by simp
    next
      case False
      then have "step w k s = step_detached w (k mod ?n - length ts) s"
        using Some a n p by (auto simp: step_def Let_def)
      moreover have "k mod ?n - length ts < length (detached s)"
        using False lt p by simp
      ultimately show ?thesis
        using work_step_detached by simp
    qed
  qed
qed

lemma run_Nil [simp]: "run w [] s = s"
  by (simp add: run_def)

lemma run_Cons [simp]: "run w (k # ks) s = run w ks (step w k s)"
  by (simp add: run_def)

lemma run_append: "run w (ks @ ls) s = run w ls (run w ks s)"
  by (simp add: run_def)

lemma quiet_run: "quiet s \<Longrightarrow> run w ks s = s"
  by (induction ks) (simp_all add: quiet_step)

lemma run_quiet: "work w s \<le> length ks \<Longrightarrow> quiet (run w ks s)"
proof (induction ks arbitrary: s)
  case Nil
  then have "work w s = 0" by simp
  then have "work_of (pending s) = 0" "work_of (detached s) = 0"
    by (simp_all add: work_def)
  moreover have "work_of ts = 0 \<Longrightarrow> ts = []" for ts
  proof (cases ts)
    case Nil
    then show ?thesis by simp
  next
    case (Cons t us)
    assume "work_of ts = 0"
    then have "steps_left (t_stage t) = 0"
      using Cons by simp
    then show ?thesis
      using steps_left_pos [of "t_stage t"] by simp
  qed
  ultimately show ?case
    by (simp add: quiet_def)
next
  case (Cons k ks)
  show ?case
  proof (cases "quiet s")
    case True
    then show ?thesis
      using quiet_run [of s w "k # ks"] by simp
  next
    case False
    then have "work w (step w k s) < work w s"
      by (rule work_step)
    then have "work w (step w k s) \<le> length ks"
      using Cons.prems by simp
    then show ?thesis
      using Cons.IH by simp
  qed
qed

lemma map_filter_append: "List.map_filter f (xs @ ys) = List.map_filter f xs @ List.map_filter f ys"
  by (simp add: List.map_filter_def)

lemma verdicts_simps [simp]:
  "verdicts [] = []"
  "verdicts (ev # tr) = (case verdict_of ev of None \<Rightarrow> verdicts tr | Some fv \<Rightarrow> fv # verdicts tr)"
  "verdicts (tr @ tr') = verdicts tr @ verdicts tr'"
  by (simp_all add: verdicts_def map_filter_append List.map_filter_simps split: option.splits)

lemma taken_simps [simp]:
  "taken [] = []"
  "taken (ev # tr) = (case taken_of ev of None \<Rightarrow> taken tr | Some f \<Rightarrow> f # taken tr)"
  "taken (tr @ tr') = taken tr @ taken tr'"
  by (simp_all add: taken_def map_filter_append List.map_filter_simps split: option.splits)

lemma summary_simps [simp]:
  "summary [] = []"
  "summary (ev # tr) = (case done_of ev of None \<Rightarrow> summary tr | Some nm \<Rightarrow> nm # summary tr)"
  "summary (tr @ tr') = summary tr @ summary tr'"
  by (simp_all add: summary_def map_filter_append List.map_filter_simps split: option.splits)

lemma writes_simps [simp]:
  "writes [] = []"
  "writes (ev # tr) = (case write_of ev of None \<Rightarrow> writes tr | Some x \<Rightarrow> x # writes tr)"
  "writes (tr @ tr') = writes tr @ writes tr'"
  by (simp_all add: writes_def map_filter_append List.map_filter_simps split: option.splits)

lemma started_silent [simp]:
  "verdicts (map (\<lambda>t. Started f (g t)) ts) = []"
  "taken (map (\<lambda>t. Started f (g t)) ts) = []"
  "summary (map (\<lambda>t. Started f (g t)) ts) = []"
  "writes (map (\<lambda>t. Started f (g t)) ts) = []"
  by (induction ts) simp_all

text \<open>What the loop of main adds to a state.\<close>

lemma main_loop_verdicts:
  "verdicts (trace (main_loop w fs s)) =
     verdicts (trace s) @ map (\<lambda>f. (f, Skipped)) (takeWhile (\<lambda>f. tasks_of w f = []) fs)"
  by (induction fs arbitrary: s) (simp_all add: Let_def)

lemma main_loop_rest:
  "current (main_loop w fs s) @ todo (main_loop w fs s) = dropWhile (\<lambda>f. tasks_of w f = []) fs"
  by (induction fs arbitrary: s) (simp_all add: Let_def current_def)

lemma main_loop_taken:
  "taken (trace (main_loop w fs s)) =
     taken (trace s) @ takeWhile (\<lambda>f. tasks_of w f = []) fs @ current (main_loop w fs s)"
  by (induction fs arbitrary: s) (simp_all add: Let_def current_def)

lemma main_loop_results:
  "results (main_loop w fs s) =
     results s @ map (\<lambda>f. \<lparr>srcPath = f, outputs = [], skipped = True\<rparr>)
                   (takeWhile (\<lambda>f. tasks_of w f = []) fs)"
  by (induction fs arbitrary: s) (simp_all add: Let_def)

lemma main_loop_writes: "writes (trace (main_loop w fs s)) = writes (trace s)"
  by (induction fs arbitrary: s) (simp_all add: Let_def)

lemma main_loop_summary:
  "summary (trace (main_loop w fs s)) =
     summary (trace s) @
     (if awaiting (main_loop w fs s) = None
      then [(okCount (results (main_loop w fs s)), total s)] else [])"
  by (induction fs arbitrary: s) (simp_all add: Let_def)

lemma main_loop_awaiting:
  "awaiting (main_loop w fs s) = None \<Longrightarrow> todo (main_loop w fs s) = []"
  "awaiting (main_loop w fs s) = Some (f, ts) \<Longrightarrow> ts = tasks_of w f \<and> ts \<noteq> []"
  by (induction fs arbitrary: s) (simp_all add: Let_def split: if_splits)

lemma in_order_main_loop:
  assumes "fatal s = None" "total s = length files"
    and "map fst (verdicts (trace s)) @ fs = files"
    and "taken (trace s) = map fst (verdicts (trace s))"
  shows "in_order files (main_loop w fs s)"
proof -
  have "takeWhile (\<lambda>f. tasks_of w f = []) fs @ current (main_loop w fs s) @ todo (main_loop w fs s) = fs"
    by (simp add: main_loop_rest)
  then show ?thesis
    using assms main_loop_awaiting [of w fs s]
    by (auto simp: in_order_def main_loop_verdicts main_loop_taken comp_def)
qed

lemma step_cases [case_names still detached awaited]:
  obtains "step w k s = s"
  | j where "j < length (detached s)" "step w k s = step_detached w j s"
  | f ts i where "awaiting s = Some (f, ts)" "i < length ts" "step w k s = step_awaited w f ts i s"
proof -
  let ?n = "length (pending s) + length (detached s)"
  show ?thesis
  proof (cases "?n = 0")
    case True
    then have "step w k s = s"
      by (simp add: step_def)
    then show ?thesis
      by (rule that(1))
  next
    case False
    then have lt: "k mod ?n < ?n"
      by simp
    show ?thesis
    proof (cases "awaiting s")
      case None
      then have "step w k s = step_detached w (k mod ?n) s" "k mod ?n < length (detached s)"
        using False lt by (simp_all add: step_def pending_def)
      then show ?thesis
        using that(2) by blast
    next
      case (Some a)
      obtain f ts where a: "a = (f, ts)" by (cases a)
      have p: "pending s = ts"
        using Some a by (simp add: pending_def)
      show ?thesis
      proof (cases "k mod ?n < length ts")
        case True
        then have "step w k s = step_awaited w f ts (k mod ?n) s"
          using Some a False p by (auto simp: step_def Let_def)
        then show ?thesis
          using that(3) [of f ts "k mod ?n"] Some a True by simp
      next
        case nt: False
        then have "step w k s = step_detached w (k mod ?n - length ts) s"
          using Some a False p by (auto simp: step_def Let_def)
        moreover have "k mod ?n - length ts < length (detached s)"
          using nt lt p by simp
        ultimately show ?thesis
          using that(2) by blast
      qed
    qed
  qed
qed

lemma without_length: "i < length ts \<Longrightarrow> Suc (length (without i ts)) = length ts"
  by (auto simp: without_def)

lemma set_without: "set (without i ts) \<subseteq> set ts"
  by (auto simp: without_def dest: in_set_takeD in_set_dropD)

lemma step_detached_trace:
  "verdicts (trace (step_detached w j s)) = verdicts (trace s)"
  "taken (trace (step_detached w j s)) = taken (trace s)"
  "summary (trace (step_detached w j s)) = summary (trace s)"
  by (simp_all add: step_detached_def Let_def split: progress.splits)

lemma step_detached_fields:
  "awaiting (step_detached w j s) = awaiting s"
  "todo (step_detached w j s) = todo s"
  "results (step_detached w j s) = results s"
  "total (step_detached w j s) = total s"
  "fatal (step_detached w j s) = fatal s"
  by (simp_all add: step_detached_def Let_def split: progress.splits)

lemma in_order_step_detached: "in_order files s \<Longrightarrow> in_order files (step_detached w j s)"
  by (simp add: in_order_def step_detached_trace step_detached_fields current_def)

lemma in_order_step_awaited:
  assumes io: "in_order files s" and a: "awaiting s = Some (f, ts)" and i: "i < length ts"
  shows "in_order files (step_awaited w f ts i s)"
proof (cases "resume w (ts ! i)")
  case (Rejected e)
  have "in_order files (main_loop w (todo s)
          (s\<lparr>detached := detached s @ without i ts,
             trace := trace s @ [Settled (t_src (ts ! i)) (t_out (ts ! i)) (Some e), LogError f e]\<rparr>))"
    using io a by (intro in_order_main_loop) (simp_all add: in_order_def current_def)
  then show ?thesis
    using Rejected by (simp add: step_awaited_def Let_def)
next
  case (Advanced st)
  then show ?thesis
    using io a i by (auto simp: step_awaited_def Let_def in_order_def current_def)
next
  case (Written c)
  show ?thesis
  proof (cases "without i ts = []")
    case True
    have "in_order files (main_loop w (todo s)
          (s\<lparr>results := results s @ [\<lparr>srcPath = f, outputs = map t_out (tasks_of w f), skipped = False\<rparr>],
             trace := trace s @ [Wrote (t_src (ts ! i)) (t_out (ts ! i)) c,
                                 Settled (t_src (ts ! i)) (t_out (ts ! i)) None,
                                 LogOk f (map t_out (tasks_of w f))],
             disk := (disk s)(t_out (ts ! i) \<mapsto> c)\<rparr>))"
      using io a by (intro in_order_main_loop) (simp_all add: in_order_def current_def)
    then show ?thesis
      using Written True by (simp add: step_awaited_def Let_def)
  next
    case False
    then show ?thesis
      using Written io a by (auto simp: step_awaited_def Let_def in_order_def current_def)
  qed
qed

lemma in_order_step: "in_order files s \<Longrightarrow> in_order files (step w k s)"
  by (cases w k s rule: step_cases) (simp_all add: in_order_step_detached in_order_step_awaited)

lemma in_order_run: "in_order files s \<Longrightarrow> in_order files (run w ks s)"
  by (induction ks arbitrary: s) (simp_all add: in_order_step)

lemma in_order_main:
  assumes "enumerate_files w = Inr files" "files \<noteq> []"
  shows "in_order files (main w)"
  using assms by (auto simp: main_def idle_def intro!: in_order_main_loop)

lemma step_detached_cases [consumes 1, case_names rejected advanced wrote]:
  assumes "j < length (detached s)"
  obtains e where "resume w (detached s ! j) = Rejected e"
      "step_detached w j s =
         s\<lparr>detached := without j (detached s),
           trace := trace s @ [Settled (t_src (detached s ! j)) (t_out (detached s ! j)) (Some e)]\<rparr>"
  | st where "resume w (detached s ! j) = Advanced st"
      "step_detached w j s = s\<lparr>detached := (detached s)[j := (detached s ! j)\<lparr>t_stage := st\<rparr>]\<rparr>"
  | c where "resume w (detached s ! j) = Written c"
      "step_detached w j s =
         s\<lparr>detached := without j (detached s),
           trace := trace s @ [Wrote (t_src (detached s ! j)) (t_out (detached s ! j)) c,
                               Settled (t_src (detached s ! j)) (t_out (detached s ! j)) None],
           disk := (disk s)(t_out (detached s ! j) \<mapsto> c)\<rparr>"
  by (cases "resume w (detached s ! j)") (simp_all add: step_detached_def Let_def)

lemma step_awaited_cases [consumes 1, case_names rejected advanced wrote last]:
  assumes "i < length ts"
  obtains e where "resume w (ts ! i) = Rejected e"
      "step_awaited w f ts i s =
         main_loop w (todo s)
           (s\<lparr>detached := detached s @ without i ts,
              trace := trace s @ [Settled (t_src (ts ! i)) (t_out (ts ! i)) (Some e), LogError f e]\<rparr>)"
  | st where "resume w (ts ! i) = Advanced st"
      "step_awaited w f ts i s = s\<lparr>awaiting := Some (f, ts[i := (ts ! i)\<lparr>t_stage := st\<rparr>])\<rparr>"
  | c where "resume w (ts ! i) = Written c" "without i ts \<noteq> []"
      "step_awaited w f ts i s =
         s\<lparr>awaiting := Some (f, without i ts),
           trace := trace s @ [Wrote (t_src (ts ! i)) (t_out (ts ! i)) c,
                               Settled (t_src (ts ! i)) (t_out (ts ! i)) None],
           disk := (disk s)(t_out (ts ! i) \<mapsto> c)\<rparr>"
  | c where "resume w (ts ! i) = Written c" "ts = [ts ! i]"
      "step_awaited w f ts i s =
         main_loop w (todo s)
           (s\<lparr>results := results s @ [\<lparr>srcPath = f, outputs = map t_out (tasks_of w f), skipped = False\<rparr>],
              trace := trace s @ [Wrote (t_src (ts ! i)) (t_out (ts ! i)) c,
                                  Settled (t_src (ts ! i)) (t_out (ts ! i)) None,
                                  LogOk f (map t_out (tasks_of w f))],
              disk := (disk s)(t_out (ts ! i) \<mapsto> c)\<rparr>)"
proof (cases "resume w (ts ! i)")
  case (Rejected e)
  then show ?thesis
    using that(1) by (simp add: step_awaited_def Let_def)
next
  case (Advanced st)
  then show ?thesis
    using that(2) by (simp add: step_awaited_def Let_def)
next
  case (Written c)
  show ?thesis
  proof (cases "without i ts = []")
    case True
    then have "length ts = 1"
      using without_length [OF assms] by simp
    then have "ts = [ts ! i]"
      using assms by (cases ts) simp_all
    then show ?thesis
      using that(4) [of c] Written True by (simp add: step_awaited_def Let_def)
  next
    case False
    then show ?thesis
      using that(3) [of c] Written by (simp add: step_awaited_def Let_def)
  qed
qed

lemma set_with_nth: "i < length ts \<Longrightarrow> set ts = insert (ts ! i) (set (without i ts))"
proof -
  assume "i < length ts"
  then have "ts = take i ts @ ts ! i # drop (Suc i) ts"
    by (rule id_take_nth_drop)
  then have "set ts = set (take i ts @ ts ! i # drop (Suc i) ts)"
    by simp
  then show ?thesis
    by (simp add: without_def)
qed

lemma origin_image_update:
  assumes "i < length ts" and "origin t' = origin (ts ! i)"
  shows "origin ` set ts \<subseteq> origin ` set (ts[i := t'])"
proof
  fix x assume "x \<in> origin ` set ts"
  then obtain k where k: "k < length ts" "x = origin (ts ! k)"
    by (auto simp: in_set_conv_nth)
  show "x \<in> origin ` set (ts[i := t'])"
  proof (cases "k = i")
    case True
    then have "x = origin t'"
      using k assms by simp
    moreover have "t' \<in> set (ts[i := t'])"
      using assms(1) by (simp add: set_update_memI)
    ultimately show ?thesis
      by blast
  next
    case False
    then have "(ts[i := t']) ! k = ts ! k"
      by simp
    then have "ts ! k \<in> set (ts[i := t'])"
      using k(1) by (metis length_list_update nth_mem)
    then show ?thesis
      using k(2) by blast
  qed
qed

lemma task_ok_advanced:
  "task_ok w t \<Longrightarrow> resume w t = Advanced st \<Longrightarrow> task_ok w (t\<lparr>t_stage := st\<rparr>)"
  by (simp add: task_ok_def resume_Advanced)

lemma task_ok_fresh: "t \<in> set (tasks_of w f) \<Longrightarrow> task_ok w t"
  using tasks_of_fresh [of t w f] tasks_of_origin [of t w f] rest_of_fresh [of t w f]
  by (simp add: task_ok_def)

lemma task_ok_rejected:
  "task_ok w t \<Longrightarrow> resume w t = Rejected e \<Longrightarrow>
   origin t \<in> set (tasks_of w (t_src t)) \<and> run_task w (origin t) = Inl e"
  using resume_Rejected [of w t e] by (simp add: task_ok_def)

lemma task_ok_written:
  "task_ok w t \<Longrightarrow> resume w t = Written c \<Longrightarrow>
   origin t \<in> set (tasks_of w (t_src t)) \<and> run_task w (origin t) = Inr c"
  using resume_Written [of w t c] by (simp add: task_ok_def)

lemma pending_simps:
  "awaiting s = None \<Longrightarrow> pending s = []"
  "awaiting s = Some (f, ts) \<Longrightarrow> pending s = ts"
  by (simp_all add: pending_def)

lemma tasks_ok_main_loop:
  assumes "\<forall>t\<in>set (detached s). task_ok w t"
  shows "tasks_ok w (main_loop w fs s)"
proof -
  have "\<forall>t\<in>set (pending (main_loop w fs s)). task_ok w t"
  proof (cases "awaiting (main_loop w fs s)")
    case None
    then show ?thesis by (simp add: pending_simps)
  next
    case (Some a)
    obtain f ts where a: "a = (f, ts)" by (cases a)
    then show ?thesis
      using Some main_loop_awaiting(2) [of w fs s f ts] task_ok_fresh
      by (auto simp: pending_simps)
  qed
  moreover have "\<forall>f ts. awaiting (main_loop w fs s) = Some (f, ts) \<longrightarrow>
            (\<forall>t\<in>set ts. t_src t = f)
            \<and> (\<forall>t0\<in>set (tasks_of w f). t0 \<in> origin ` set ts \<or> succeeds w t0)"
  proof (intro allI impI)
    fix f ts assume "awaiting (main_loop w fs s) = Some (f, ts)"
    then have ts: "ts = tasks_of w f"
      using main_loop_awaiting(2) by blast
    have "t0 \<in> set (tasks_of w f) \<Longrightarrow> t0 \<in> origin ` set (tasks_of w f)" for t0
      using tasks_of_origin [of t0 w f] by force
    then show "(\<forall>t\<in>set ts. t_src t = f)
            \<and> (\<forall>t0\<in>set (tasks_of w f). t0 \<in> origin ` set ts \<or> succeeds w t0)"
      using ts tasks_of_fresh by blast
  qed
  ultimately show ?thesis
    using assms by (auto simp: tasks_ok_def)
qed

lemma tasks_ok_step_detached:
  assumes ok: "tasks_ok w s" and j: "j < length (detached s)"
  shows "tasks_ok w (step_detached w j s)"
proof -
  have tj: "task_ok w (detached s ! j)"
    using ok j by (simp add: tasks_ok_def)
  from j show ?thesis
  proof (cases rule: step_detached_cases [where w = w])
    case (rejected e)
    then show ?thesis
      using ok set_without [of j "detached s"] by (auto simp: tasks_ok_def pending_def)
  next
    case (advanced st)
    have "set ((detached s)[j := (detached s ! j)\<lparr>t_stage := st\<rparr>])
            \<subseteq> insert ((detached s ! j)\<lparr>t_stage := st\<rparr>) (set (detached s))"
      by (rule set_update_subset_insert)
    then show ?thesis
      using ok advanced task_ok_advanced [OF tj advanced(1)]
      by (auto simp: tasks_ok_def pending_def)
  next
    case (wrote c)
    then show ?thesis
      using ok set_without [of j "detached s"] by (auto simp: tasks_ok_def pending_def)
  qed
qed

lemma tasks_ok_step_awaited:
  assumes ok: "tasks_ok w s" and a: "awaiting s = Some (f, ts)" and i: "i < length ts"
  shows "tasks_ok w (step_awaited w f ts i s)"
proof -
  have all: "\<forall>t\<in>set ts. task_ok w t \<and> t_src t = f"
    and det: "\<forall>t\<in>set (detached s). task_ok w t"
    and cover: "\<forall>t0\<in>set (tasks_of w f). t0 \<in> origin ` set ts \<or> succeeds w t0"
    using ok a by (auto simp: tasks_ok_def pending_def)
  have ti: "task_ok w (ts ! i)" "t_src (ts ! i) = f"
    using all i by simp_all
  from i show ?thesis
  proof (cases rule: step_awaited_cases [where w = w and f = f and s = s])
    case (rejected e)
    have "\<forall>t\<in>set (detached s @ without i ts). task_ok w t"
      using all det set_without [of i ts] by auto
    then show ?thesis
      using rejected(2) tasks_ok_main_loop by simp
  next
    case (advanced st)
    let ?t = "(ts ! i)\<lparr>t_stage := st\<rparr>"
    have sub: "set (ts[i := ?t]) \<subseteq> insert ?t (set ts)"
      by (rule set_update_subset_insert)
    have new: "task_ok w ?t" "t_src ?t = f"
      using task_ok_advanced [OF ti(1) advanced(1)] ti(2) by simp_all
    have "origin ` set ts \<subseteq> origin ` set (ts[i := ?t])"
      using i by (intro origin_image_update) simp_all
    then have "\<forall>t0\<in>set (tasks_of w f). t0 \<in> origin ` set (ts[i := ?t]) \<or> succeeds w t0"
      using cover by blast
    moreover have "\<forall>t\<in>set (ts[i := ?t]). task_ok w t \<and> t_src t = f"
      using sub new all by blast
    ultimately show ?thesis
      using advanced(2) det by (auto simp: tasks_ok_def pending_def)
  next
    case (wrote c)
    have fin: "succeeds w (origin (ts ! i))"
      using task_ok_written [OF ti(1) wrote(1)] by (simp add: succeeds_def)
    have "\<forall>t0\<in>set (tasks_of w f). t0 \<in> origin ` set (without i ts) \<or> succeeds w t0"
    proof
      fix t0 assume "t0 \<in> set (tasks_of w f)"
      then have "t0 \<in> origin ` set ts \<or> succeeds w t0"
        using cover by blast
      then show "t0 \<in> origin ` set (without i ts) \<or> succeeds w t0"
        using set_with_nth [OF i] fin by auto
    qed
    moreover have "\<forall>t\<in>set (without i ts). task_ok w t \<and> t_src t = f"
      using all set_without [of i ts] by blast
    ultimately show ?thesis
      using wrote(3) det by (auto simp: tasks_ok_def pending_def)
  next
    case (last c)
    then show ?thesis
      using det tasks_ok_main_loop by simp
  qed
qed

lemma tasks_ok_step: "tasks_ok w s \<Longrightarrow> tasks_ok w (step w k s)"
  by (cases w k s rule: step_cases) (simp_all add: tasks_ok_step_detached tasks_ok_step_awaited)

lemma judged_ok_main_loop:
  assumes "judged_ok w s"
  shows "judged_ok w (main_loop w fs s)"
proof -
  have "f \<in> set (takeWhile (\<lambda>f. tasks_of w f = []) fs) \<Longrightarrow> tasks_of w f = []" for f
    by (auto dest: set_takeWhileD)
  then show ?thesis
    using assms by (auto simp: judged_ok_def main_loop_verdicts judged_def)
qed

lemma judged_ok_grow:
  "judged_ok w s \<Longrightarrow> judged w f v \<Longrightarrow> verdicts (trace s') = verdicts (trace s) @ [(f, v)] \<Longrightarrow>
   judged_ok w s'"
  by (auto simp: judged_ok_def)

lemma judged_ok_same:
  "judged_ok w s \<Longrightarrow> verdicts (trace s') = verdicts (trace s) \<Longrightarrow> judged_ok w s'"
  by (auto simp: judged_ok_def)

lemma judged_ok_step_awaited:
  assumes ok: "tasks_ok w s" and jo: "judged_ok w s"
    and a: "awaiting s = Some (f, ts)" and i: "i < length ts"
  shows "judged_ok w (step_awaited w f ts i s)"
proof -
  have all: "\<forall>t\<in>set ts. task_ok w t \<and> t_src t = f"
    and cover: "\<forall>t0\<in>set (tasks_of w f). t0 \<in> origin ` set ts \<or> succeeds w t0"
    using ok a by (auto simp: tasks_ok_def pending_def)
  have ti: "task_ok w (ts ! i)" "t_src (ts ! i) = f"
    using all i by simp_all
  from i show ?thesis
  proof (cases rule: step_awaited_cases [where w = w and f = f and s = s])
    case (rejected e)
    have j: "judged w f (Failed e)"
      using task_ok_rejected [OF ti(1) rejected(1)] ti(2)
      by (auto simp: judged_def list_ex_iff)
    have "judged_ok w (s\<lparr>detached := detached s @ without i ts,
              trace := trace s @ [Settled (t_src (ts ! i)) (t_out (ts ! i)) (Some e), LogError f e]\<rparr>)"
      by (rule judged_ok_grow [OF jo j]) simp
    then show ?thesis
      using rejected(2) judged_ok_main_loop by simp
  next
    case (advanced st)
    show ?thesis
      by (rule judged_ok_same [OF jo]) (simp add: advanced(2))
  next
    case (wrote c)
    show ?thesis
      by (rule judged_ok_same [OF jo]) (simp add: wrote(3))
  next
    case (last c)
    have w: "origin (ts ! i) \<in> set (tasks_of w f)" "succeeds w (origin (ts ! i))"
      using task_ok_written [OF ti(1) last(1)] ti(2) by (simp_all add: succeeds_def)
    have "set ts = {ts ! i}"
      using last(2) by (metis list.simps(15) empty_set)
    then have "\<forall>t0\<in>set (tasks_of w f). succeeds w t0"
      using cover w(2) by auto
    then have j: "judged w f (Succeeded (map t_out (tasks_of w f)))"
      using w(1) by (auto simp: judged_def list_all_iff)
    have "judged_ok w
           (s\<lparr>results := results s @ [\<lparr>srcPath = f, outputs = map t_out (tasks_of w f), skipped = False\<rparr>],
              trace := trace s @ [Wrote (t_src (ts ! i)) (t_out (ts ! i)) c,
                                  Settled (t_src (ts ! i)) (t_out (ts ! i)) None,
                                  LogOk f (map t_out (tasks_of w f))],
              disk := (disk s)(t_out (ts ! i) \<mapsto> c)\<rparr>)"
      by (rule judged_ok_grow [OF jo j]) simp
    then show ?thesis
      using last(3) judged_ok_main_loop by simp
  qed
qed

lemma judged_ok_step: "tasks_ok w s \<Longrightarrow> judged_ok w s \<Longrightarrow> judged_ok w (step w k s)"
proof (cases w k s rule: step_cases)
  case still
  then show "judged_ok w s \<Longrightarrow> judged_ok w (step w k s)" by simp
next
  case (detached j)
  then show "judged_ok w s \<Longrightarrow> judged_ok w (step w k s)"
    by (simp add: judged_ok_def step_detached_trace)
next
  case (awaited f ts i)
  then show "tasks_ok w s \<Longrightarrow> judged_ok w s \<Longrightarrow> judged_ok w (step w k s)"
    by (simp add: judged_ok_step_awaited)
qed

text \<open>The tally.\<close>

lemma outcome_of_skips:
  "List.map_filter outcome_of (map (\<lambda>f. (f, Skipped)) fs)
     = map (\<lambda>f. \<lparr>srcPath = f, outputs = [], skipped = True\<rparr>) fs"
  by (induction fs) (simp_all add: List.map_filter_simps outcome_of_def)

lemma tally_ok_main_loop:
  assumes "results s = List.map_filter outcome_of (verdicts (trace s))" "summary (trace s) = []"
  shows "tally_ok (main_loop w fs s)"
  using assms
  by (simp add: tally_ok_def main_loop_results main_loop_verdicts main_loop_summary
      map_filter_append outcome_of_skips)

lemma tally_ok_step_detached: "tally_ok s \<Longrightarrow> tally_ok (step_detached w j s)"
  by (simp add: tally_ok_def step_detached_trace step_detached_fields)

lemma tally_ok_step_awaited:
  assumes t: "tally_ok s" and a: "awaiting s = Some (f, ts)" and i: "i < length ts"
  shows "tally_ok (step_awaited w f ts i s)"
proof -
  have r: "results s = List.map_filter outcome_of (verdicts (trace s))" and su: "summary (trace s) = []"
    using t a by (simp_all add: tally_ok_def)
  from i show ?thesis
  proof (cases rule: step_awaited_cases [where w = w and f = f and s = s])
    case (rejected e)
    then show ?thesis
      using r su
      by (simp add: tally_ok_main_loop map_filter_append List.map_filter_simps outcome_of_def)
  next
    case (advanced st)
    then show ?thesis
      using r su by (simp add: tally_ok_def)
  next
    case (wrote c)
    then show ?thesis
      using r su by (simp add: tally_ok_def)
  next
    case (last c)
    then show ?thesis
      using r su
      by (simp add: tally_ok_main_loop map_filter_append List.map_filter_simps outcome_of_def)
  qed
qed

lemma tally_ok_step: "tally_ok s \<Longrightarrow> tally_ok (step w k s)"
  by (cases w k s rule: step_cases) (simp_all add: tally_ok_step_detached tally_ok_step_awaited)

text \<open>Tasks left behind belong to failed sources.\<close>

lemma detached_failed_main_loop: "detached_failed s \<Longrightarrow> detached_failed (main_loop w fs s)"
  by (auto simp: detached_failed_def main_loop_verdicts)

lemma detached_failed_step_detached:
  assumes df: "detached_failed s" and j: "j < length (detached s)"
  shows "detached_failed (step_detached w j s)"
proof -
  from j show ?thesis
  proof (cases rule: step_detached_cases [where w = w])
    case (rejected e)
    then show ?thesis
      using df set_without [of j "detached s"] by (auto simp: detached_failed_def)
  next
    case (advanced st)
    have "set ((detached s)[j := (detached s ! j)\<lparr>t_stage := st\<rparr>])
            \<subseteq> insert ((detached s ! j)\<lparr>t_stage := st\<rparr>) (set (detached s))"
      by (rule set_update_subset_insert)
    moreover have "detached s ! j \<in> set (detached s)"
      using j by simp
    ultimately show ?thesis
      using df advanced(2) by (auto simp: detached_failed_def)
  next
    case (wrote c)
    then show ?thesis
      using df set_without [of j "detached s"] by (auto simp: detached_failed_def)
  qed
qed

lemma detached_failed_step_awaited:
  assumes ok: "tasks_ok w s" and df: "detached_failed s"
    and a: "awaiting s = Some (f, ts)" and i: "i < length ts"
  shows "detached_failed (step_awaited w f ts i s)"
proof -
  have all: "\<forall>t\<in>set ts. t_src t = f"
    using ok a by (auto simp: tasks_ok_def)
  from i show ?thesis
  proof (cases rule: step_awaited_cases [where w = w and f = f and s = s])
    case (rejected e)
    have "detached_failed (s\<lparr>detached := detached s @ without i ts,
              trace := trace s @ [Settled (t_src (ts ! i)) (t_out (ts ! i)) (Some e), LogError f e]\<rparr>)"
      using df all set_without [of i ts] by (auto simp: detached_failed_def)
    then show ?thesis
      using rejected(2) detached_failed_main_loop by simp
  next
    case (advanced st)
    then show ?thesis
      using df by (simp add: detached_failed_def)
  next
    case (wrote c)
    then show ?thesis
      using df by (simp add: detached_failed_def)
  next
    case (last c)
    have "detached_failed
           (s\<lparr>results := results s @ [\<lparr>srcPath = f, outputs = map t_out (tasks_of w f), skipped = False\<rparr>],
              trace := trace s @ [Wrote (t_src (ts ! i)) (t_out (ts ! i)) c,
                                  Settled (t_src (ts ! i)) (t_out (ts ! i)) None,
                                  LogOk f (map t_out (tasks_of w f))],
              disk := (disk s)(t_out (ts ! i) \<mapsto> c)\<rparr>)"
      using df by (auto simp: detached_failed_def)
    then show ?thesis
      using last(3) detached_failed_main_loop by simp
  qed
qed

lemma detached_failed_step:
  "tasks_ok w s \<Longrightarrow> detached_failed s \<Longrightarrow> detached_failed (step w k s)"
  by (cases w k s rule: step_cases)
     (simp_all add: detached_failed_step_detached detached_failed_step_awaited)

text \<open>What is written.\<close>

lemma writes_ok_main_loop: "writes_ok w s \<Longrightarrow> writes_ok w (main_loop w fs s)"
  by (simp add: writes_ok_def main_loop_writes)

lemma written_ok_task:
  "task_ok w t \<Longrightarrow> resume w t = Written c \<Longrightarrow> written_ok w (t_src t, t_out t, c)"
proof -
  assume "task_ok w t" "resume w t = Written c"
  then have "origin t \<in> set (tasks_of w (t_src t))" "run_task w (origin t) = Inr c"
    using task_ok_written by simp_all
  moreover have "t_out (origin t) = t_out t"
    by simp
  ultimately show ?thesis
    unfolding written_ok_def list_ex_iff by (auto intro: bexI [of _ "origin t"])
qed

lemma writes_ok_write:
  assumes "writes_ok w s" "written_ok w (src, p, c)"
    and "writes (trace s') = writes (trace s) @ [(src, p, c)] \<and> disk s' = (disk s)(p \<mapsto> c)"
  shows "writes_ok w s'"
  using assms by (auto simp: writes_ok_def)

lemma writes_ok_same:
  assumes "writes_ok w s" "writes (trace s') = writes (trace s) \<and> disk s' = disk s"
  shows "writes_ok w s'"
  using assms by (auto simp: writes_ok_def)

lemma writes_ok_step_detached:
  assumes ok: "tasks_ok w s" and wo: "writes_ok w s" and j: "j < length (detached s)"
  shows "writes_ok w (step_detached w j s)"
proof -
  have tj: "task_ok w (detached s ! j)"
    using ok j by (simp add: tasks_ok_def)
  from j show ?thesis
  proof (cases rule: step_detached_cases [where w = w])
    case (rejected e)
    show ?thesis
      by (rule writes_ok_same [OF wo]) (simp add: rejected(2))
  next
    case (advanced st)
    show ?thesis
      by (rule writes_ok_same [OF wo]) (simp add: advanced(2))
  next
    case (wrote c)
    show ?thesis
      by (rule writes_ok_write [OF wo written_ok_task [OF tj wrote(1)]]) (simp add: wrote(2))
  qed
qed

lemma writes_ok_step_awaited:
  assumes ok: "tasks_ok w s" and wo: "writes_ok w s"
    and a: "awaiting s = Some (f, ts)" and i: "i < length ts"
  shows "writes_ok w (step_awaited w f ts i s)"
proof -
  have ti: "task_ok w (ts ! i)"
    using ok a i by (auto simp: tasks_ok_def pending_def)
  from i show ?thesis
  proof (cases rule: step_awaited_cases [where w = w and f = f and s = s])
    case (rejected e)
    have "writes_ok w (s\<lparr>detached := detached s @ without i ts,
              trace := trace s @ [Settled (t_src (ts ! i)) (t_out (ts ! i)) (Some e), LogError f e]\<rparr>)"
      by (rule writes_ok_same [OF wo]) simp
    then show ?thesis
      using rejected(2) writes_ok_main_loop by simp
  next
    case (advanced st)
    show ?thesis
      by (rule writes_ok_same [OF wo]) (simp add: advanced(2))
  next
    case (wrote c)
    show ?thesis
      by (rule writes_ok_write [OF wo written_ok_task [OF ti wrote(1)]]) (simp add: wrote(3))
  next
    case (last c)
    have "writes_ok w
           (s\<lparr>results := results s @ [\<lparr>srcPath = f, outputs = map t_out (tasks_of w f), skipped = False\<rparr>],
              trace := trace s @ [Wrote (t_src (ts ! i)) (t_out (ts ! i)) c,
                                  Settled (t_src (ts ! i)) (t_out (ts ! i)) None,
                                  LogOk f (map t_out (tasks_of w f))],
              disk := (disk s)(t_out (ts ! i) \<mapsto> c)\<rparr>)"
      by (rule writes_ok_write [OF wo written_ok_task [OF ti last(1)]]) simp
    then show ?thesis
      using last(3) writes_ok_main_loop by simp
  qed
qed

lemma writes_ok_step: "tasks_ok w s \<Longrightarrow> writes_ok w s \<Longrightarrow> writes_ok w (step w k s)"
  by (cases w k s rule: step_cases) (simp_all add: writes_ok_step_detached writes_ok_step_awaited)

section \<open>Every state a run reaches\<close>

lemma invariant_step: "invariant w files s \<Longrightarrow> invariant w files (step w k s)"
  by (simp add: invariant_def in_order_step tasks_ok_step judged_ok_step tally_ok_step
      detached_failed_step writes_ok_step)

lemma invariant_run: "invariant w files s \<Longrightarrow> invariant w files (run w ks s)"
  by (induction ks arbitrary: s) (simp_all add: invariant_step)

lemma invariant_main:
  assumes e: "enumerate_files w = Inr files" and ne: "files \<noteq> []"
  shows "invariant w files (main w)"
proof -
  let ?s0 = "(idle w)\<lparr>total := length files,
                       trace := [LogInput (length files), LogOutputDir (AFTER_DIR w)]\<rparr>"
  have m: "main w = main_loop w files ?s0"
    using e ne by (simp add: main_def)
  have "tasks_ok w (main_loop w files ?s0)"
    by (rule tasks_ok_main_loop) (simp add: idle_def)
  moreover have "judged_ok w (main_loop w files ?s0)"
    by (rule judged_ok_main_loop) (simp add: judged_ok_def)
  moreover have "tally_ok (main_loop w files ?s0)"
    by (rule tally_ok_main_loop) (simp_all add: idle_def List.map_filter_simps)
  moreover have "detached_failed (main_loop w files ?s0)"
    by (rule detached_failed_main_loop) (simp add: detached_failed_def idle_def)
  moreover have "writes_ok w (main_loop w files ?s0)"
    by (rule writes_ok_main_loop) (simp add: writes_ok_def idle_def)
  ultimately show ?thesis
    using in_order_main [OF e ne] m by (simp add: invariant_def)
qed

lemma reached:
  "enumerate_files w = Inr files \<Longrightarrow> files \<noteq> [] \<Longrightarrow> invariant w files (run w ks (main w))"
  by (simp add: invariant_main invariant_run)

text \<open>The runs without a loop: the setup failed, or there is nothing to do.\<close>

lemma main_crash:
  "enumerate_files w = Inl e \<Longrightarrow> run w ks (main w) = crash w e"
proof -
  assume "enumerate_files w = Inl e"
  then have "main w = crash w e"
    by (simp add: main_def)
  moreover have "quiet (crash w e)"
    by (simp add: quiet_def crash_def idle_def pending_def)
  ultimately show ?thesis
    by (simp add: quiet_run)
qed

lemma main_nothing:
  "enumerate_files w = Inr [] \<Longrightarrow> run w ks (main w) = (idle w)\<lparr>trace := [LogNoTargets]\<rparr>"
proof -
  assume "enumerate_files w = Inr []"
  then have "main w = (idle w)\<lparr>trace := [LogNoTargets]\<rparr>"
    by (simp add: main_def)
  moreover have "quiet ((idle w)\<lparr>trace := [LogNoTargets]\<rparr>)"
    by (simp add: quiet_def idle_def pending_def)
  ultimately show ?thesis
    by (simp add: quiet_run)
qed

lemma quiet_exit:
  assumes "in_order files s"
  shows "quiet s \<longleftrightarrow> exit_code s = Some 0"
proof -
  have "fatal s = None" "\<forall>f ts. awaiting s = Some (f, ts) \<longrightarrow> ts \<noteq> []"
    using assms by (simp_all add: in_order_def)
  then show ?thesis
    by (cases "awaiting s") (auto simp: quiet_def exit_code_def pending_def)
qed

lemma quiet_verdicts:
  assumes "in_order files s" "quiet s"
  shows "map fst (verdicts (trace s)) = files" "taken (trace s) = files"
proof -
  have "awaiting s = None"
    using assms by (cases "awaiting s") (auto simp: in_order_def quiet_def pending_def)
  then show "map fst (verdicts (trace s)) = files" "taken (trace s) = files"
    using assms(1) by (auto simp: in_order_def current_def)
qed

section \<open>Nothing to do\<close>

text \<open>
  C10. When the enumeration yields no file, \<^verbatim>\<open>main\<close> prints the notice and returns: the
  notice is all that is printed (no source is taken up and no final line follows), nothing
  is recorded or written, and the process exits with code 0.
\<close>

theorem main_nothing_to_do:
  assumes "enumerate_files w = Inr []"
  shows "trace (run w schedule (main w)) = [LogNoTargets]
         \<and> results (run w schedule (main w)) = []
         \<and> disk (run w schedule (main w)) = files_before w
         \<and> exit_code (run w schedule (main w)) = Some 0"
  using main_nothing [OF assms, of schedule] by (simp add: idle_def exit_code_def)

lemma nothing_found_files: "enumerate_files nothing_found = Inr []"
  by code_simp

theorem main_nothing_to_do_witness:
  "enumerate_files nothing_found = Inr []
   \<and> trace (run nothing_found [0, 1, 2] (main nothing_found)) = [LogNoTargets]
   \<and> exit_code (run nothing_found [0, 1, 2] (main nothing_found)) = Some 0"
  using main_nothing_to_do [OF nothing_found_files, of "[0, 1, 2]"] nothing_found_files
  by simp

section \<open>How a run ends\<close>

lemma main_exit:
  assumes e: "enumerate_files w = Inr files"
  shows "exit_code (run w schedule (main w)) \<noteq> Some 1
     \<and> (work w (main w) \<le> length schedule \<longrightarrow> exit_code (run w schedule (main w)) = Some 0)
     \<and> (exit_code (run w schedule (main w)) = Some 0 \<longrightarrow>
          map fst (verdicts (trace (run w schedule (main w)))) = files)"
proof (cases "files = []")
  case True
  then show ?thesis
    using e main_nothing [of w schedule] by (simp add: idle_def exit_code_def)
next
  case False
  let ?s = "run w schedule (main w)"
  have io: "in_order files ?s"
    using reached [OF e False, of schedule] by (simp add: invariant_def)
  have "fatal ?s = None"
    using io by (simp add: in_order_def)
  then have "exit_code ?s \<noteq> Some 1"
    by (simp add: exit_code_def)
  moreover have "work w (main w) \<le> length schedule \<longrightarrow> exit_code ?s = Some 0"
    using run_quiet [of w "main w" schedule] quiet_exit [OF io] by simp
  moreover have "exit_code ?s = Some 0 \<longrightarrow> map fst (verdicts (trace ?s)) = files"
    using quiet_verdicts(1) [OF io] quiet_exit [OF io] by simp
  ultimately show ?thesis
    by simp
qed

lemma verdicts_judged:
  assumes e: "enumerate_files w = Inr files"
  shows "list_all (\<lambda>fv. judged w (fst fv) (snd fv)) (verdicts (trace (run w schedule (main w))))"
proof (cases "files = []")
  case True
  then show ?thesis
    using e main_nothing [of w schedule] by (simp add: idle_def)
next
  case False
  have "judged_ok w (run w schedule (main w))"
    using reached [OF e False, of schedule] by (simp add: invariant_def)
  then show ?thesis
    by (simp add: judged_ok_def list_all_iff)
qed

section \<open>Failures stay with their file\<close>

text \<open>
  C3. The process exits with code 1 exactly when the setup fails (\<^verbatim>\<open>ensureDirs\<close> or a glob
  rejects). Otherwise, whatever fails while the files are processed and in whatever order
  the tasks settle: once every running task has been given its steps the process has
  exited with code 0, and when it has, every enumerated file has got exactly one outcome,
  in the order of the enumeration, and each outcome is the file's own (a file is skipped
  only when it has no derivative, succeeds only when all its tasks do, and fails only with
  the error of one of its own tasks).
\<close>

theorem main_isolates_failures:
  "(exit_code (run w schedule (main w)) = Some 1 \<longleftrightarrow> (\<exists>e. enumerate_files w = Inl e))
   \<and> (\<forall>files. enumerate_files w = Inr files \<longrightarrow>
         (work w (main w) \<le> length schedule \<longrightarrow> exit_code (run w schedule (main w)) = Some 0)
         \<and> (exit_code (run w schedule (main w)) = Some 0 \<longrightarrow>
              map fst (verdicts (trace (run w schedule (main w)))) = files
              \<and> list_all (\<lambda>fv. judged w (fst fv) (snd fv)) (verdicts (trace (run w schedule (main w))))))"
proof (cases "enumerate_files w")
  case (Inl e)
  then show ?thesis
    using main_crash [OF Inl, of schedule] by (simp add: crash_def exit_code_def)
next
  case (Inr files)
  then show ?thesis
    using main_exit [OF Inr, of schedule] verdicts_judged [OF Inr, of schedule]
    by simp
qed

lemma one_refused_files: "enumerate_files one_refused = Inr [a_png, a_jpg]"
  by code_simp

lemma one_refused_work: "work one_refused (main one_refused) = 12"
  by code_simp

lemma one_refused_verdicts:
  "verdicts (trace (run one_refused (replicate 12 0) (main one_refused)))
     = [(a_png, Failed (ShrinkFailed 500 ''{}'')), (a_jpg, Succeeded [''/proj/after/a.webp''])]"
  by code_simp

theorem main_isolates_failures_witness:
  "enumerate_files one_refused = Inr [a_png, a_jpg]
   \<and> exit_code (run one_refused (replicate 12 0) (main one_refused)) = Some 0
   \<and> verdicts (trace (run one_refused (replicate 12 0) (main one_refused)))
       = [(a_png, Failed (ShrinkFailed 500 ''{}'')), (a_jpg, Succeeded [''/proj/after/a.webp''])]"
  using main_isolates_failures [of one_refused "replicate 12 0"]
    one_refused_files one_refused_work one_refused_verdicts
  by simp

section \<open>What reaches the disk\<close>

lemma run_task_Inr:
  "run_task w t = Inr c \<Longrightarrow>
   \<exists>buf. sharp_toBuffer w (t_src t) (t_opts t) = Inr buf \<and> compress_for w t buf = Inr c"
  by (auto simp: run_task_def write_result_def split: sum.splits option.splits)

text \<open>
  C5. Every write of a run puts at the output path of a derivative task the bytes that
  \<^verbatim>\<open>tinifyCompressBuffer\<close> returned for the buffer sharp encoded for that task, and every
  file on the disk at any moment either was there before the run or holds the bytes of
  such a write.
\<close>

theorem writes_are_compressed:
  "(\<forall>x\<in>set (writes (trace (run w schedule (main w)))).
      case x of (src, p, c) \<Rightarrow>
        \<exists>t\<in>set (tasks_of w src). t_out t = p
          \<and> (\<exists>buf. sharp_toBuffer w src (t_opts t) = Inr buf \<and> compress_for w t buf = Inr c))
   \<and> (\<forall>p c. disk (run w schedule (main w)) p = Some c \<longrightarrow>
         files_before w p = Some c
         \<or> (\<exists>src. (src, p, c) \<in> set (writes (trace (run w schedule (main w))))))"
proof (cases "enumerate_files w")
  case (Inl e)
  then show ?thesis
    using main_crash [OF Inl, of schedule] by (simp add: crash_def idle_def)
next
  case (Inr files)
  show ?thesis
  proof (cases "files = []")
    case True
    then show ?thesis
      using Inr main_nothing [of w schedule] by (simp add: idle_def)
  next
    case False
    let ?s = "run w schedule (main w)"
    have "writes_ok w ?s"
      using reached [OF Inr False, of schedule] by (simp add: invariant_def)
    then have a: "\<forall>x\<in>set (writes (trace ?s)). written_ok w x"
      and b: "\<forall>p c. disk ?s p = Some c \<longrightarrow>
            files_before w p = Some c \<or> (\<exists>src. (src, p, c) \<in> set (writes (trace ?s)))"
      by (simp_all add: writes_ok_def)
    have "\<exists>t\<in>set (tasks_of w src). t_out t = p
          \<and> (\<exists>buf. sharp_toBuffer w src (t_opts t) = Inr buf \<and> compress_for w t buf = Inr c)"
      if mem: "(src, p, c) \<in> set (writes (trace ?s))" for src p c
    proof -
      obtain t where t: "t \<in> set (tasks_of w src)" "t_out t = p" "run_task w t = Inr c"
        using a mem by (fastforce simp: written_ok_def list_ex_iff)
      then show ?thesis
        using run_task_Inr [OF t(3)] tasks_of_fresh [OF t(1)] by auto
    qed
    then show ?thesis
      using b by auto
  qed
qed

lemma one_refused_writes:
  "writes (trace (run one_refused (replicate 12 0) (main one_refused)))
     = [(a_jpg, ''/proj/after/a.webp'', ''tiny:https://out/raw:/proj/before/a.jpg''),
        (a_png, ''/proj/after/a.webp'', ''tiny:https://out/raw:/proj/before/a.png'')]"
  by code_simp

theorem writes_are_compressed_witness:
  "writes (trace (run one_refused (replicate 12 0) (main one_refused)))
     = [(a_jpg, ''/proj/after/a.webp'', ''tiny:https://out/raw:/proj/before/a.jpg''),
        (a_png, ''/proj/after/a.webp'', ''tiny:https://out/raw:/proj/before/a.png'')]
   \<and> (\<exists>t\<in>set (tasks_of one_refused a_jpg). t_out t = ''/proj/after/a.webp''
        \<and> (\<exists>buf. sharp_toBuffer one_refused a_jpg (t_opts t) = Inr buf
               \<and> compress_for one_refused t buf = Inr ''tiny:https://out/raw:/proj/before/a.jpg''))"
  using writes_are_compressed [of one_refused "replicate 12 0"] one_refused_writes
  by simp

section \<open>The enumeration\<close>

lemma Set_add_set: "set (Set_add seen x) = insert x (set seen)"
  by (auto simp: Set_add_def)

lemma Set_add_distinct: "distinct seen \<Longrightarrow> distinct (Set_add seen x)"
  by (simp add: Set_add_def)

lemma foldl_Set_add:
  "distinct seen \<Longrightarrow>
   distinct (foldl Set_add seen xs) \<and> set (foldl Set_add seen xs) = set seen \<union> set xs"
  by (induction xs arbitrary: seen) (simp_all add: Set_add_set Set_add_distinct)

lemma new_Set_distinct: "distinct (new_Set xs)"
  using foldl_Set_add [of "[]" xs] by (simp add: new_Set_def)

lemma new_Set_set: "set (new_Set xs) = set xs"
  using foldl_Set_add [of "[]" xs] by (simp add: new_Set_def)

lemma enumerate_files_Inr:
  assumes "enumerate_files w = Inr files"
  obtains nested where "glob_all w (patterns w) = Inr nested" "files = new_Set (concat nested)"
  using assms by (auto simp: enumerate_files_def split: option.splits sum.splits)

lemma files_distinct: "enumerate_files w = Inr files \<Longrightarrow> distinct files"
  by (auto simp: new_Set_distinct elim: enumerate_files_Inr)

lemma distinct_count_list:
  "distinct xs \<Longrightarrow> count_list xs x = (if x \<in> set xs then 1 else 0)"
  by (induction xs) auto

lemma exit_taken:
  assumes e: "enumerate_files w = Inr files"
    and x: "exit_code (run w schedule (main w)) = Some 0"
  shows "taken (trace (run w schedule (main w))) = files"
proof (cases "files = []")
  case True
  then show ?thesis
    using e main_nothing [of w schedule] by (simp add: idle_def)
next
  case False
  have "in_order files (run w schedule (main w))"
    using reached [OF e False, of schedule] by (simp add: invariant_def)
  then show ?thesis
    using x quiet_exit quiet_verdicts(2) by blast
qed

text \<open>
  C9. The files \<^verbatim>\<open>main\<close> enumerates are the files the globs found, each of them once: the list
  has no duplicate and the same elements as the lists of the globs together. When the
  process has exited with code 0, the sources taken up are this list, so each file found
  was processed exactly once.
\<close>

theorem files_processed_once:
  "enumerate_files w = Inr files \<longrightarrow>
     distinct files
     \<and> (\<forall>nested. glob_all w (patterns w) = Inr nested \<longrightarrow> set files = set (concat nested))
     \<and> (exit_code (run w schedule (main w)) = Some 0 \<longrightarrow>
          taken (trace (run w schedule (main w))) = files
          \<and> (\<forall>f. count_list (taken (trace (run w schedule (main w)))) f
                  = (if f \<in> set files then 1 else 0)))"
proof (intro impI)
  assume e: "enumerate_files w = Inr files"
  obtain nested where n: "glob_all w (patterns w) = Inr nested" "files = new_Set (concat nested)"
    using e by (rule enumerate_files_Inr)
  have d: "distinct files"
    using n(2) by (simp add: new_Set_distinct)
  moreover have "\<forall>nested. glob_all w (patterns w) = Inr nested \<longrightarrow> set files = set (concat nested)"
    using n by (simp add: new_Set_set)
  moreover have "exit_code (run w schedule (main w)) = Some 0 \<longrightarrow>
          taken (trace (run w schedule (main w))) = files
          \<and> (\<forall>f. count_list (taken (trace (run w schedule (main w)))) f
                  = (if f \<in> set files then 1 else 0))"
    using exit_taken [OF e] distinct_count_list [OF d] by simp
  ultimately show "distinct files
     \<and> (\<forall>nested. glob_all w (patterns w) = Inr nested \<longrightarrow> set files = set (concat nested))
     \<and> (exit_code (run w schedule (main w)) = Some 0 \<longrightarrow>
          taken (trace (run w schedule (main w))) = files
          \<and> (\<forall>f. count_list (taken (trace (run w schedule (main w)))) f
                  = (if f \<in> set files then 1 else 0)))"
    by blast
qed

lemma found_twice_globs:
  "glob_all found_twice (patterns found_twice) = Inr [[a_png, a_png], [a_jpg, a_png], []]"
  by code_simp

lemma found_twice_files: "enumerate_files found_twice = Inr [a_png, a_jpg]"
  by code_simp

lemma found_twice_run:
  "exit_code (run found_twice (replicate 12 0) (main found_twice)) = Some 0"
  by code_simp

theorem files_processed_once_witness:
  "glob_all found_twice (patterns found_twice) = Inr [[a_png, a_png], [a_jpg, a_png], []]
   \<and> enumerate_files found_twice = Inr [a_png, a_jpg]
   \<and> taken (trace (run found_twice (replicate 12 0) (main found_twice))) = [a_png, a_jpg]"
  using files_processed_once [of found_twice "[a_png, a_jpg]" "replicate 12 0"]
    found_twice_globs found_twice_files found_twice_run
  by simp

section \<open>Without a key\<close>

lemma run_task_no_key:
  assumes "API_KEY w = None \<or> API_KEY w = Some []"
  shows "run_task w t =
           (case sharp_toBuffer w (t_src t) (t_opts t) of
              Inl rejection \<Rightarrow> Inl (SharpRejected rejection)
            | Inr buf \<Rightarrow> Inl MissingApiKey)"
  using assms
  by (auto simp: run_task_def compress_for_def tinifyCompressBuffer_def check_key_def
      split: sum.splits)

lemma judged_no_key:
  assumes k: "API_KEY w = None \<or> API_KEY w = Some []"
    and j: "judged w f v" and q: "qualifying f"
  shows "\<exists>e. v = Failed e \<and> (kind_of e = ConfigurationError \<or> kind_of e = EncodingError)
             \<and> (encodable w f \<longrightarrow> e = MissingApiKey)"
proof (cases v)
  case (Succeeded outs)
  then obtain t where "t \<in> set (tasks_of w f)" "succeeds w t"
    using j by (cases "tasks_of w f") (auto simp: judged_def)
  then show ?thesis
    using run_task_no_key [OF k, of t] by (auto simp: succeeds_def split: sum.splits)
next
  case Skipped
  then show ?thesis
    using j q tasks_of_qualifying [of w f] by (simp add: judged_def)
next
  case (Failed e)
  then obtain t where t: "t \<in> set (tasks_of w f)" "run_task w t = Inl e"
    using j by (auto simp: judged_def list_ex_iff)
  have "kind_of e = ConfigurationError \<or> kind_of e = EncodingError"
    using t(2) run_task_no_key [OF k, of t] by (auto split: sum.splits)
  moreover have "e = MissingApiKey" if enc: "encodable w f"
  proof -
    have "\<forall>m. sharp_toBuffer w (t_src t) (t_opts t) \<noteq> Inl m"
      using enc t(1) by (auto simp: encodable_def list_all_iff split: sum.splits)
    then obtain buf where "sharp_toBuffer w (t_src t) (t_opts t) = Inr buf"
      by (cases "sharp_toBuffer w (t_src t) (t_opts t)") auto
    then show ?thesis
      using t(2) run_task_no_key [OF k, of t] by simp
  qed
  ultimately show ?thesis
    using Failed by simp
qed

text \<open>
  C7 (as amended). With no key configured nothing fails at startup: the process never
  exits with code 1 and, once every task has been given its steps, has exited with code 0.
  When it has, every enumerated file has its outcome, and every qualifying file is recorded
  as failed: with the configuration error when sharp encodes its derivatives, and
  otherwise with the configuration error or the error of sharp.
\<close>

theorem missing_key_fails_each_file:
  assumes k: "API_KEY w = None \<or> API_KEY w = Some []"
    and e: "enumerate_files w = Inr files"
  shows "exit_code (run w schedule (main w)) \<noteq> Some 1
     \<and> (work w (main w) \<le> length schedule \<longrightarrow> exit_code (run w schedule (main w)) = Some 0)
     \<and> (exit_code (run w schedule (main w)) = Some 0 \<longrightarrow>
          map fst (verdicts (trace (run w schedule (main w)))) = files
          \<and> (\<forall>fv\<in>set (verdicts (trace (run w schedule (main w)))).
                qualifying (fst fv) \<longrightarrow>
                  (\<exists>err. snd fv = Failed err
                     \<and> (kind_of err = ConfigurationError \<or> kind_of err = EncodingError)
                     \<and> (encodable w (fst fv) \<longrightarrow> err = MissingApiKey))))"
proof -
  let ?s = "run w schedule (main w)"
  have j: "\<forall>fv\<in>set (verdicts (trace ?s)). judged w (fst fv) (snd fv)"
    using verdicts_judged [OF e, of schedule] by (simp add: list_all_iff)
  have "\<forall>fv\<in>set (verdicts (trace ?s)). qualifying (fst fv) \<longrightarrow>
                  (\<exists>err. snd fv = Failed err
                     \<and> (kind_of err = ConfigurationError \<or> kind_of err = EncodingError)
                     \<and> (encodable w (fst fv) \<longrightarrow> err = MissingApiKey))"
    using j judged_no_key [OF k] by blast
  then show ?thesis
    using main_exit [OF e, of schedule] by simp
qed


lemma no_key_files: "enumerate_files no_key = Inr [a_png, a_jpg]"
  by code_simp

lemma no_key_work: "work no_key (main no_key) = 12"
  by code_simp

lemma no_key_verdicts:
  "verdicts (trace (run no_key (replicate 12 0) (main no_key)))
     = [(a_png, Failed MissingApiKey), (a_jpg, Failed MissingApiKey)]"
  by code_simp

lemma no_key_key: "API_KEY no_key = None"
  by code_simp

theorem missing_key_fails_each_file_witness:
  "API_KEY no_key = None \<and> enumerate_files no_key = Inr [a_png, a_jpg]
   \<and> exit_code (run no_key (replicate 12 0) (main no_key)) = Some 0
   \<and> verdicts (trace (run no_key (replicate 12 0) (main no_key)))
       = [(a_png, Failed MissingApiKey), (a_jpg, Failed MissingApiKey)]"
  using missing_key_fails_each_file [of no_key "[a_png, a_jpg]" "replicate 12 0"]
    no_key_key no_key_files no_key_work no_key_verdicts
  by simp

text \<open>
  C7 as stated does not hold for a file sharp cannot read: the key is looked at only after
  the encoding, so such a file is recorded with the error of sharp.
\<close>

theorem missing_key_counterexample:
  "API_KEY no_key_bad_image = None
   \<and> enumerate_files no_key_bad_image = Inr [a_png, a_jpg]
   \<and> qualifying a_png
   \<and> verdicts (trace (run no_key_bad_image (replicate 12 0) (main no_key_bad_image)))
       = [(a_png, Failed (SharpRejected ''unsupported image format'')), (a_jpg, Failed MissingApiKey)]
   \<and> kind_of (SharpRejected ''unsupported image format'') \<noteq> ConfigurationError"
  by code_simp

section \<open>The final line\<close>

lemma count_by_source:
  "\<forall>fv\<in>set vs. P (snd fv) \<longleftrightarrow> Q (fst fv) \<Longrightarrow>
   length (filter (\<lambda>fv. P (snd fv)) vs) = length (filter Q (map fst vs))"
  by (induction vs) simp_all

lemma count_all_but_one:
  "distinct xs \<Longrightarrow> f \<in> set xs \<Longrightarrow> Q f \<Longrightarrow>
   length (filter (\<lambda>g. Q g \<and> g \<noteq> f) xs) = length (filter Q xs) - 1"
proof (induction xs)
  case Nil
  then show ?case by simp
next
  case (Cons x xs)
  show ?case
  proof (cases "x = f")
    case True
    then have "f \<notin> set xs"
      using Cons.prems(1) by simp
    then have "filter (\<lambda>g. Q g \<and> g \<noteq> f) xs = filter Q xs"
      by (intro filter_cong) auto
    then show ?thesis
      using True Cons.prems(3) by simp
  next
    case False
    then have "f \<in> set xs"
      using Cons.prems(2) by simp
    then have "0 < length (filter Q xs)"
      using Cons.prems(3) by (simp add: filter_empty_conv length_greater_0_conv) blast
    then show ?thesis
      using False Cons \<open>f \<in> set xs\<close> by simp
  qed
qed

lemma count_the_one:
  "distinct xs \<Longrightarrow> f \<in> set xs \<Longrightarrow> length (filter (\<lambda>g. g = f) xs) = 1"
  by (induction xs) (auto simp: filter_empty_conv)

lemma okCount_Cons:
  "okCount (r # rs) = (if \<not> skipped r \<and> outputs r \<noteq> [] then Suc (okCount rs) else okCount rs)"
  by (simp add: okCount_def)

lemma count_succeeded_Cons:
  "count_succeeded (fv # vs) =
     (if is_succeeded (snd fv) then Suc (count_succeeded vs) else count_succeeded vs)"
  by (simp add: count_succeeded_def)

lemma okCount_outcomes:
  "\<forall>fv\<in>set vs. judged w (fst fv) (snd fv) \<Longrightarrow>
   okCount (List.map_filter outcome_of vs) = count_succeeded vs"
proof (induction vs)
  case Nil
  then show ?case
    by (simp add: okCount_def count_succeeded_def List.map_filter_simps)
next
  case (Cons fv vs)
  then have ih: "okCount (List.map_filter outcome_of vs) = count_succeeded vs"
    by simp
  have j: "judged w (fst fv) (snd fv)"
    using Cons.prems by simp
  show ?case
  proof (cases "snd fv")
    case (Succeeded outs)
    then have "outs \<noteq> []"
      using j by (auto simp: judged_def)
    moreover have "outcome_of fv = Some \<lparr>srcPath = fst fv, outputs = outs, skipped = False\<rparr>"
      using Succeeded by (simp add: outcome_of_def)
    ultimately show ?thesis
      using ih Succeeded by (simp add: List.map_filter_simps okCount_Cons count_succeeded_Cons)
  next
    case Skipped
    then have "outcome_of fv = Some \<lparr>srcPath = fst fv, outputs = [], skipped = True\<rparr>"
      by (simp add: outcome_of_def)
    then show ?thesis
      using ih Skipped by (simp add: List.map_filter_simps okCount_Cons count_succeeded_Cons)
  next
    case (Failed e)
    then have "outcome_of fv = None"
      by (simp add: outcome_of_def)
    then show ?thesis
      using ih Failed by (simp add: List.map_filter_simps count_succeeded_Cons)
  qed
qed

lemma compressor_fails_not_ok:
  "compressor_fails w f \<Longrightarrow> \<not> list_all (succeeds w) (tasks_of w f)"
  by (auto simp: compressor_fails_def list_ex_iff list_all_iff succeeds_def run_task_def
      split: sum.splits)

lemma judged_succeeded:
  assumes "judged w g v"
  shows "is_succeeded v \<longleftrightarrow> qualifying g \<and> list_all (succeeds w) (tasks_of w g)"
proof (cases v)
  case (Succeeded outs)
  then show ?thesis
    using assms tasks_of_qualifying [of w g] by (auto simp: judged_def)
next
  case Skipped
  then show ?thesis
    using assms tasks_of_qualifying [of w g] by (auto simp: judged_def)
next
  case (Failed e)
  then obtain t where "t \<in> set (tasks_of w g)" "run_task w t = Inl e"
    using assms by (auto simp: judged_def list_ex_iff)
  then have "\<not> list_all (succeeds w) (tasks_of w g)"
    by (auto simp: list_all_iff succeeds_def intro!: bexI [of _ t])
  then show ?thesis
    using Failed by simp
qed

lemma judged_failed:
  assumes "judged w g v"
  shows "is_failed v \<longleftrightarrow> \<not> list_all (succeeds w) (tasks_of w g)"
proof (cases v)
  case (Succeeded outs)
  then show ?thesis
    using assms by (auto simp: judged_def)
next
  case Skipped
  then show ?thesis
    using assms by (auto simp: judged_def)
next
  case (Failed e)
  then obtain t where "t \<in> set (tasks_of w g)" "run_task w t = Inl e"
    using assms by (auto simp: judged_def list_ex_iff)
  then have "\<not> list_all (succeeds w) (tasks_of w g)"
    by (auto simp: list_all_iff succeeds_def intro!: bexI [of _ t])
  then show ?thesis
    using Failed by simp
qed

lemma final_line:
  assumes e: "enumerate_files w = Inr files" and ne: "files \<noteq> []"
    and x: "exit_code (run w schedule (main w)) = Some 0"
  shows "summary (trace (run w schedule (main w)))
           = [(count_succeeded (verdicts (trace (run w schedule (main w)))), length files)]"
proof -
  let ?s = "run w schedule (main w)"
  have inv: "invariant w files ?s"
    using e ne by (rule reached)
  then have io: "in_order files ?s" and t: "tally_ok ?s" and j: "judged_ok w ?s"
    by (simp_all add: invariant_def)
  have "awaiting ?s = None"
    using x io by (auto simp: exit_code_def in_order_def split: if_splits)
  then have "summary (trace ?s) = [(okCount (results ?s), total ?s)]"
    using t by (simp add: tally_ok_def)
  moreover have "okCount (results ?s) = count_succeeded (verdicts (trace ?s))"
    using t j okCount_outcomes [of "verdicts (trace ?s)" w] by (simp add: tally_ok_def judged_ok_def)
  moreover have "total ?s = length files"
    using io by (simp add: in_order_def)
  ultimately show ?thesis
    by simp
qed

lemma final_line_or_none:
  assumes e: "enumerate_files w = Inr files"
    and x: "exit_code (run w schedule (main w)) = Some 0"
  shows "summary (trace (run w schedule (main w)))
           = (if files = [] then []
              else [(count_succeeded (verdicts (trace (run w schedule (main w)))), length files)])"
proof (cases "files = []")
  case True
  then show ?thesis
    using e main_nothing [of w schedule] by (simp add: idle_def summary_def map_filter_simps)
next
  case False
  then show ?thesis
    using final_line [OF e False x] by simp
qed

lemma one_failure_counted:
  assumes e: "enumerate_files w = Inr files"
    and x: "exit_code (run w schedule (main w)) = Some 0"
    and f: "f \<in> set files"
    and h: "compressor_fails w f
           \<and> (\<forall>g\<in>set files. g \<noteq> f \<longrightarrow> list_all (succeeds w) (tasks_of w g))"
  shows "count_succeeded (verdicts (trace (run w schedule (main w))))
             = length (filter qualifying files) - 1
         \<and> count_failed (verdicts (trace (run w schedule (main w)))) = 1
         \<and> (\<exists>err. (f, Failed err) \<in> set (verdicts (trace (run w schedule (main w)))))"
proof (intro conjI)
  let ?vs = "verdicts (trace (run w schedule (main w)))"
  have bad: "\<not> list_all (succeeds w) (tasks_of w f)"
    using h compressor_fails_not_ok by blast
  then have qf: "qualifying f"
    using tasks_of_qualifying [of w f] by (cases "tasks_of w f") auto
  have d: "distinct files"
    using files_distinct [OF e] .
  have src: "map fst ?vs = files"
    using main_exit [OF e, of schedule] x by simp
  have j: "\<forall>fv\<in>set ?vs. judged w (fst fv) (snd fv)"
    using verdicts_judged [OF e, of schedule] by (simp add: list_all_iff)
  have mem: "fst fv \<in> set files" if "fv \<in> set ?vs" for fv
    using that src by (metis image_eqI set_map)
  have "is_succeeded (snd fv) \<longleftrightarrow> (qualifying (fst fv) \<and> fst fv \<noteq> f)" if m: "fv \<in> set ?vs" for fv
  proof -
    have jf: "judged w (fst fv) (snd fv)"
      using j m by simp
    show ?thesis
    proof (cases "fst fv = f")
      case True
      then show ?thesis
        using judged_succeeded [OF jf] bad by simp
    next
      case False
      then have "list_all (succeeds w) (tasks_of w (fst fv))"
        using h mem [OF m] by simp
      then show ?thesis
        using judged_succeeded [OF jf] False by simp
    qed
  qed
  then have "\<forall>fv\<in>set ?vs. is_succeeded (snd fv) \<longleftrightarrow> (qualifying (fst fv) \<and> fst fv \<noteq> f)"
    by simp
  then have "count_succeeded ?vs = length (filter (\<lambda>g. qualifying g \<and> g \<noteq> f) (map fst ?vs))"
    unfolding count_succeeded_def by (rule count_by_source)
  then show "count_succeeded ?vs = length (filter qualifying files) - 1"
    using src count_all_but_one [of files f qualifying, OF d f qf] by simp
  have "is_failed (snd fv) \<longleftrightarrow> fst fv = f" if m: "fv \<in> set ?vs" for fv
  proof -
    have jf: "judged w (fst fv) (snd fv)"
      using j m by simp
    show ?thesis
    proof (cases "fst fv = f")
      case True
      then show ?thesis
        using judged_failed [OF jf] bad by simp
    next
      case False
      then have "list_all (succeeds w) (tasks_of w (fst fv))"
        using h mem [OF m] by simp
      then show ?thesis
        using judged_failed [OF jf] False by simp
    qed
  qed
  then have "\<forall>fv\<in>set ?vs. is_failed (snd fv) \<longleftrightarrow> fst fv = f"
    by simp
  then have "count_failed ?vs = length (filter (\<lambda>g. g = f) (map fst ?vs))"
    unfolding count_failed_def by (rule count_by_source)
  then show "count_failed ?vs = 1"
    using src count_the_one [OF d f] by simp
  obtain v where v: "(f, v) \<in> set ?vs"
    using f src by (metis (no_types, lifting) imageE set_map prod.collapse)
  then have "is_failed v"
    using j judged_failed [of w f v] bad by auto
  then show "\<exists>err. (f, Failed err) \<in> set ?vs"
    using v by (cases v) auto
qed

text \<open>
  C4 (as amended). When at least one file was enumerated, \<^verbatim>\<open>main\<close> prints after the last file
  one final line, which holds the number of files that succeeded and the number of files
  enumerated (skipped and failed files are not counted apart); when no file was enumerated
  it prints no final line. The process gets there: once every running task has been given
  its steps it has exited with code 0. In particular, when the remote compressor fails for
  one file while every derivative of every other file is encoded, compressed and written
  without error, the number of files that succeeded is the number of qualifying files less
  one, and exactly one file, that one, is recorded as failed.
\<close>

theorem one_failure_in_the_final_line:
  assumes e: "enumerate_files w = Inr files"
  shows "(work w (main w) \<le> length schedule \<longrightarrow> exit_code (run w schedule (main w)) = Some 0)
     \<and> (exit_code (run w schedule (main w)) = Some 0 \<longrightarrow>
          summary (trace (run w schedule (main w)))
            = (if files = [] then []
               else [(count_succeeded (verdicts (trace (run w schedule (main w)))), length files)])
          \<and> (\<forall>f\<in>set files.
                compressor_fails w f
                \<and> (\<forall>g\<in>set files. g \<noteq> f \<longrightarrow> list_all (succeeds w) (tasks_of w g)) \<longrightarrow>
                count_succeeded (verdicts (trace (run w schedule (main w))))
                  = length (filter qualifying files) - 1
                \<and> count_failed (verdicts (trace (run w schedule (main w)))) = 1
                \<and> (\<exists>err. (f, Failed err) \<in> set (verdicts (trace (run w schedule (main w)))))))"
  using main_exit [OF e, of schedule] final_line_or_none [OF e, of schedule]
    one_failure_counted [OF e, of schedule]
  by blast

lemma one_refused_exit: "exit_code (run one_refused (replicate 12 0) (main one_refused)) = Some 0"
  by code_simp

lemma one_refused_hyps:
  "compressor_fails one_refused a_png" "list_all (succeeds one_refused) (tasks_of one_refused a_jpg)"
  "qualifying a_png" "qualifying a_jpg" "a_png \<noteq> a_jpg"
  by code_simp+

theorem one_failure_in_the_final_line_witness:
  "enumerate_files one_refused = Inr [a_png, a_jpg]
   \<and> work one_refused (main one_refused) \<le> length (replicate 12 (0::nat))
   \<and> exit_code (run one_refused (replicate 12 0) (main one_refused)) = Some 0
   \<and> compressor_fails one_refused a_png
   \<and> list_all (succeeds one_refused) (tasks_of one_refused a_jpg)
   \<and> summary (trace (run one_refused (replicate 12 0) (main one_refused)))
       = [(count_succeeded (verdicts (trace (run one_refused (replicate 12 0) (main one_refused)))), 2)]
   \<and> count_succeeded (verdicts (trace (run one_refused (replicate 12 0) (main one_refused)))) = 1
   \<and> count_failed (verdicts (trace (run one_refused (replicate 12 0) (main one_refused)))) = 1"
proof -
  note t = one_failure_in_the_final_line [OF one_refused_files, of "replicate 12 0"]
  have x: "exit_code (run one_refused (replicate 12 0) (main one_refused)) = Some 0"
    using t one_refused_work by simp
  have others: "\<forall>g\<in>set [a_png, a_jpg]. g \<noteq> a_png \<longrightarrow> list_all (succeeds one_refused) (tasks_of one_refused g)"
    using one_refused_hyps(2) by simp
  have s: "summary (trace (run one_refused (replicate 12 0) (main one_refused)))
       = [(count_succeeded (verdicts (trace (run one_refused (replicate 12 0) (main one_refused)))), 2)]"
    using t x by simp
  have "count_succeeded (verdicts (trace (run one_refused (replicate 12 0) (main one_refused))))
             = length (filter qualifying [a_png, a_jpg]) - 1
        \<and> count_failed (verdicts (trace (run one_refused (replicate 12 0) (main one_refused)))) = 1"
    using t x one_refused_hyps(1) others by simp
  then show ?thesis
    using s x one_refused_files one_refused_work one_refused_hyps by simp
qed

text \<open>
  C4 as stated does not hold, in three ways. With two failed files out of three the final
  line reads 1/3, the files that succeeded and the files enumerated: neither the number of
  skipped files (0) nor that of failed files (2) is in it. When the compressor fails for
  \<^verbatim>\<open>a.png\<close> alone and serves \<^verbatim>\<open>b.png\<close> and \<^verbatim>\<open>c.jpg\<close>, but the writes for \<^verbatim>\<open>b.png\<close> are refused, one
  file of three qualifying ones succeeds and two are recorded as failed. And when no file
  is enumerated no final line is printed.
\<close>

theorem final_line_counterexample:
  "enumerate_files two_refused = Inr [a_png, b_png, c_jpg]
   \<and> exit_code (run two_refused (replicate 20 0) (main two_refused)) = Some 0
   \<and> summary (trace (run two_refused (replicate 20 0) (main two_refused))) = [(1, 3)]
   \<and> count_succeeded (verdicts (trace (run two_refused (replicate 20 0) (main two_refused)))) = 1
   \<and> count_skipped (verdicts (trace (run two_refused (replicate 20 0) (main two_refused)))) = 0
   \<and> count_failed (verdicts (trace (run two_refused (replicate 20 0) (main two_refused)))) = 2
   \<and> enumerate_files refused_and_unwritable = Inr [a_png, b_png, c_jpg]
   \<and> length (filter qualifying [a_png, b_png, c_jpg]) = 3
   \<and> compressor_fails refused_and_unwritable a_png
   \<and> \<not> compressor_fails refused_and_unwritable b_png
   \<and> \<not> compressor_fails refused_and_unwritable c_jpg
   \<and> map (\<lambda>t. compress_for refused_and_unwritable t ''raw:/proj/before/b.png'')
         (tasks_of refused_and_unwritable b_png)
       = [Inr ''tiny:https://out/raw:/proj/before/b.png'',
          Inr ''tiny:https://out/raw:/proj/before/b.png'']
   \<and> exit_code (run refused_and_unwritable (replicate 20 0) (main refused_and_unwritable)) = Some 0
   \<and> verdicts (trace (run refused_and_unwritable (replicate 20 0) (main refused_and_unwritable)))
       = [(a_png, Failed (ShrinkFailed 500 ''{}'')),
          (b_png, Failed (WriteRejected ''ENOSPC'')),
          (c_jpg, Succeeded [''/proj/after/c.webp''])]
   \<and> summary (trace (run refused_and_unwritable (replicate 20 0) (main refused_and_unwritable)))
       = [(1, 3)]
   \<and> enumerate_files nothing_found = Inr []
   \<and> exit_code (run nothing_found [] (main nothing_found)) = Some 0
   \<and> summary (trace (run nothing_found [] (main nothing_found))) = []"
  by code_simp

section \<open>The order of the work\<close>

text \<open>
  C8, at an input where it fails. The globs find \<^verbatim>\<open>a.png\<close> and \<^verbatim>\<open>a.jpg\<close>, and the service
  refuses the upload of the JPEG derivative of \<^verbatim>\<open>a.png\<close>. After the two steps that bring that
  refusal, \<^verbatim>\<open>main\<close> has reported \<^verbatim>\<open>a.png\<close> as failed and has taken up \<^verbatim>\<open>a.jpg\<close> and started its
  task, while the WebP derivative of \<^verbatim>\<open>a.png\<close> is still being encoded; run to the end, that
  task settles only after \<^verbatim>\<open>a.jpg\<close> has been processed and the final line printed.
\<close>

theorem next_file_overlaps_failed_one:
  "enumerate_files one_refused = Inr [a_png, a_jpg]
   \<and> trace (run one_refused [0, 0] (main one_refused))
       = [LogInput 2, LogOutputDir ''/proj/after'',
          Taken a_png,
          Started a_png ''/proj/after/a.jpg'', Started a_png ''/proj/after/a.webp'',
          Settled a_png ''/proj/after/a.jpg'' (Some (ShrinkFailed 500 ''{}'')),
          LogError a_png (ShrinkFailed 500 ''{}''),
          Taken a_jpg,
          Started a_jpg ''/proj/after/a.webp'']
   \<and> map t_out (detached (run one_refused [0, 0] (main one_refused))) = [''/proj/after/a.webp'']
   \<and> map t_src (detached (run one_refused [0, 0] (main one_refused))) = [a_png]
   \<and> map t_stage (detached (run one_refused [0, 0] (main one_refused))) = [Encoding]
   \<and> trace (run one_refused (replicate 12 0) (main one_refused))
       = [LogInput 2, LogOutputDir ''/proj/after'',
          Taken a_png,
          Started a_png ''/proj/after/a.jpg'', Started a_png ''/proj/after/a.webp'',
          Settled a_png ''/proj/after/a.jpg'' (Some (ShrinkFailed 500 ''{}'')),
          LogError a_png (ShrinkFailed 500 ''{}''),
          Taken a_jpg,
          Started a_jpg ''/proj/after/a.webp'',
          Wrote a_jpg ''/proj/after/a.webp'' ''tiny:https://out/raw:/proj/before/a.jpg'',
          Settled a_jpg ''/proj/after/a.webp'' None,
          LogOk a_jpg [''/proj/after/a.webp''],
          LogDone 1 2,
          Wrote a_png ''/proj/after/a.webp'' ''tiny:https://out/raw:/proj/before/a.png'',
          Settled a_png ''/proj/after/a.webp'' None]"
  by code_simp

section \<open>Output paths\<close>

lemma last_component_no_slash: "\<not> list_ex is_slash (last_component p)"
  by (auto simp: last_component_def list_ex_iff dest: set_takeWhileD)

lemma last_component_length: "length (last_component p) \<le> length p"
proof -
  have "length (takeWhile (\<lambda>c. \<not> is_slash c) (dropWhile is_slash (rev p)))
          \<le> length (dropWhile is_slash (rev p))"
    by (rule length_takeWhile_le)
  also have "\<dots> \<le> length (rev p)"
    by (rule length_dropWhile_le)
  finally show ?thesis
    by (simp add: last_component_def)
qed

lemma split_at_last_dot:
  assumes "list_ex is_dot seg"
  shows "seg = take (length seg - length (takeWhile (\<lambda>c. \<not> is_dot c) (rev seg)) - 1) seg
               @ CHR ''.'' # rev (takeWhile (\<lambda>c. \<not> is_dot c) (rev seg))"
proof -
  let ?tw = "takeWhile (\<lambda>c. \<not> is_dot c) (rev seg)"
  let ?dw = "dropWhile (\<lambda>c. \<not> is_dot c) (rev seg)"
  have "?dw \<noteq> []"
    using assms by (auto simp: list_ex_iff dropWhile_eq_Nil_conv)
  moreover have "is_dot (hd ?dw)"
    using calculation hd_dropWhile [of "\<lambda>c. \<not> is_dot c" "rev seg"] by simp
  ultimately obtain rest where dw: "?dw = CHR ''.'' # rest"
    by (cases ?dw) (auto simp: is_dot_def)
  have "rev seg = ?tw @ ?dw"
    by simp
  then have "rev seg = ?tw @ CHR ''.'' # rest"
    using dw by simp
  then have "rev (rev seg) = rev (?tw @ CHR ''.'' # rest)"
    by (rule arg_cong)
  then have seg: "seg = rev rest @ CHR ''.'' # rev ?tw"
    by simp
  then have "length seg = length rest + 1 + length ?tw"
    by (metis add.assoc add.commute length_Cons length_append length_rev plus_1_eq_Suc)
  then have "take (length seg - length ?tw - 1) seg = rev rest"
    using seg by (metis add_diff_cancel_right' append_eq_conv_conj length_rev)
  then show ?thesis
    using seg by simp
qed

lemma extname_suffix:
  "extname p = [] \<or>
   (\<exists>stem. stem \<noteq> [] \<and> last_component p = stem @ extname p)"
proof (cases "extname p = []")
  case True
  then show ?thesis by simp
next
  case False
  let ?seg = "last_component p"
  let ?tw = "takeWhile (\<lambda>c. \<not> is_dot c) (rev ?seg)"
  let ?stem = "take (length ?seg - length ?tw - 1) ?seg"
  have dot: "list_ex is_dot ?seg" and stem: "?stem \<noteq> []" and ext: "extname p = CHR ''.'' # rev ?tw"
    using False by (auto simp: extname_def Let_def split: if_splits)
  have "?seg = ?stem @ extname p"
    using split_at_last_dot [OF dot] ext by simp
  then show ?thesis
    using stem by blast
qed

lemma baseNameNoExt_extname: "baseNameNoExt p @ extname p = last_component p"
proof (cases "extname p = []")
  case True
  then show ?thesis
    by (simp add: baseNameNoExt_def basename_def)
next
  case False
  then obtain stem where stem: "stem \<noteq> []" "last_component p = stem @ extname p"
    using extname_suffix [of p] by blast
  have len: "length (extname p) < length (last_component p)"
    using stem by simp
  then have "length (extname p) < length p"
    using last_component_length [of p] by simp
  then have "extname p \<noteq> p" "length (extname p) \<le> length p"
    by auto
  moreover have "ends_with (last_component p) (extname p)"
    using stem by (simp add: ends_with_def)
  moreover have "take (length (last_component p) - length (extname p)) (last_component p) = stem"
    using stem by simp
  ultimately have "baseNameNoExt p = stem"
    using False len by (simp add: baseNameNoExt_def basename_def)
  then show ?thesis
    using stem by simp
qed

lemma baseNameNoExt_no_slash: "\<not> list_ex is_slash (baseNameNoExt p)"
proof -
  have "set (baseNameNoExt p) \<subseteq> set (last_component p)"
    using baseNameNoExt_extname [of p] by (metis set_append sup_ge1)
  then show ?thesis
    using last_component_no_slash [of p] by (auto simp: list_ex_iff)
qed

lemma tasks_of_out:
  "map t_out (tasks_of w src)
     = map (\<lambda>(ext, opts). path_join [AFTER_DIR w, baseNameNoExt src @ ext]) (planned src)"
  by (simp add: tasks_of_def withExt_def comp_def case_prod_unfold)

section \<open>Who writes a path last\<close>

lemma distinct_split_unique:
  "distinct (xs @ b # ys) \<Longrightarrow> xs @ b # ys = xs' @ b # ys' \<Longrightarrow> xs = xs' \<and> ys = ys'"
proof (induction xs arbitrary: xs')
  case Nil
  show ?case
  proof (cases xs')
    case Nil
    then show ?thesis
      using Nil.prems by simp
  next
    case (Cons y zs)
    then have "b = y" "ys = zs @ b # ys'"
      using Nil.prems(2) by simp_all
    then show ?thesis
      using Nil.prems(1) by simp
  qed
next
  case (Cons x xs)
  show ?case
  proof (cases xs')
    case Nil
    then have "x = b"
      using Cons.prems(2) by simp
    then show ?thesis
      using Cons.prems(1) by simp
  next
    case (Cons y zs)
    then have "x = y" "xs @ b # ys = zs @ b # ys'"
      using Cons.prems(2) by simp_all
    moreover have "distinct (xs @ b # ys)"
      using Cons.prems(1) by simp
    ultimately show ?thesis
      using Cons.IH [of zs] Cons by simp
  qed
qed

lemma later_in_post:
  assumes d: "distinct (pre @ b # post)" and eq: "pre @ b # post = vs @ g # rest"
    and b: "b \<in> set vs"
  shows "g \<in> set post"
proof -
  obtain v1 v2 where v: "vs = v1 @ b # v2"
    using b by (meson split_list)
  then have "pre @ b # post = v1 @ b # (v2 @ g # rest)"
    using eq by simp
  then have "post = v2 @ g # rest"
    using distinct_split_unique [OF d] by blast
  then show ?thesis
    by simp
qed

lemma collides_task:
  "task_ok w t \<Longrightarrow> t_out t = p \<Longrightarrow> collides w p (t_src t)"
  unfolding collides_def list_ex_iff task_ok_def
  by (auto intro!: bexI [of _ "origin t"])

lemma own_task_rest:
  assumes lw: "last_writer w pre b post p c" and ok: "task_ok w t"
    and t: "t_src t = b" "t_out t = p"
  shows "rest_of_task w t = Inr c"
proof -
  have "origin t \<in> set (tasks_of w b)" "rest_of_task w t = run_task w (origin t)"
    using ok t by (simp_all add: task_ok_def)
  moreover have "t_out (origin t) = p"
    using t by simp
  ultimately show ?thesis
    using lw by (auto simp: last_writer_def list_all_iff)
qed

lemma own_task_not_rejected:
  assumes "last_writer w pre b post p c" "task_ok w t" "t_src t = b" "t_out t = p"
  shows "resume w t \<noteq> Rejected e"
  using own_task_rest [OF assms] resume_Rejected [of w t e] by auto

lemma own_task_written:
  assumes "last_writer w pre b post p c" "task_ok w t" "t_src t = b" "t_out t = p"
    and "resume w t = Written c'"
  shows "c' = c"
  using own_task_rest [OF assms(1-4)] resume_Written [OF assms(5)] by simp

lemma detached_at_path:
  assumes lw: "last_writer w pre b post p c"
    and inv: "invariant w (pre @ b # post) s"
    and t: "t \<in> set (detached s)" "t_out t = p"
  shows "t_src t = b"
proof (rule ccontr)
  assume nb: "t_src t \<noteq> b"
  let ?g = "t_src t"
  have ok: "task_ok w t"
    using inv t(1) by (simp add: invariant_def tasks_ok_def)
  then have col: "collides w p ?g"
    using t(2) by (rule collides_task)
  obtain e where e: "(?g, Failed e) \<in> set (verdicts (trace s))"
    using inv t(1) by (auto simp: invariant_def detached_failed_def)
  then have "judged w ?g (Failed e)"
    using inv by (force simp: invariant_def judged_ok_def)
  then have bad: "\<not> list_all (succeeds w) (tasks_of w ?g)"
    using judged_failed [of w ?g "Failed e"] by simp
  have "?g \<in> set (map fst (verdicts (trace s)))"
    using e by force
  moreover have "map fst (verdicts (trace s)) @ current s @ todo s = pre @ b # post"
    using inv by (simp add: invariant_def in_order_def)
  ultimately have "?g \<in> set (pre @ b # post)"
    by (metis Un_iff set_append)
  then have "?g \<in> set pre \<or> ?g \<in> set post"
    using nb by auto
  then show False
    using lw col bad by (auto simp: last_writer_def list_all_iff)
qed

lemma awaited_at_path:
  assumes lw: "last_writer w pre b post p c" and d: "distinct (pre @ b # post)"
    and inv: "invariant w (pre @ b # post) s"
    and a: "awaiting s = Some (f, ts)" and t: "t \<in> set ts" "t_out t = p"
    and b: "b \<in> set (taken (trace s))"
  shows "t_src t = b"
proof (rule ccontr)
  assume nb: "t_src t \<noteq> b"
  have src: "t_src t = f" and ok: "task_ok w t"
    using inv a t(1) by (auto simp: invariant_def tasks_ok_def pending_def)
  have col: "collides w p f"
    using collides_task [OF ok t(2)] src by simp
  have io: "map fst (verdicts (trace s)) @ f # todo s = pre @ b # post"
    "taken (trace s) = map fst (verdicts (trace s)) @ [f]"
    using inv a by (simp_all add: invariant_def in_order_def current_def)
  then have "b \<in> set (map fst (verdicts (trace s)))"
    using b nb src by auto
  then have "f \<in> set post"
    using later_in_post [OF d io(1) [symmetric]] by simp
  then show False
    using lw col by (auto simp: last_writer_def list_all_iff)
qed

lemma settled_at_main_loop:
  assumes col: "collides w p b" and st: "settled_at b p (main_loop w fs s)"
  shows "b \<in> set (taken (trace s))
         \<and> list_all (\<lambda>t. \<not> (t_src t = b \<and> t_out t = p)) (detached s)"
  using st
proof (induction fs arbitrary: s)
  case Nil
  then show ?case
    by (simp add: settled_at_def pending_def)
next
  case (Cons f fs)
  show ?case
  proof (cases "tasks_of w f = []")
    case True
    then have "settled_at b p (main_loop w fs
          (s\<lparr>results := results s @ [\<lparr>srcPath = f, outputs = [], skipped = True\<rparr>],
             trace := trace s @ [Taken f, LogSkip f]\<rparr>))"
      using Cons.prems by simp
    then have "b \<in> set (taken (trace s @ [Taken f, LogSkip f]))
         \<and> list_all (\<lambda>t. \<not> (t_src t = b \<and> t_out t = p)) (detached s)"
      using Cons.IH by fastforce
    moreover have "b \<noteq> f"
      using True col by (auto simp: collides_def)
    ultimately show ?thesis
      by simp
  next
    case False
    then have st: "b \<in> set (taken (trace s)) \<or> b = f"
      "list_all (\<lambda>t. \<not> (t_src t = b \<and> t_out t = p)) (tasks_of w f @ detached s)"
      using Cons.prems by (auto simp: settled_at_def pending_def Let_def)
    have "b \<noteq> f"
    proof
      assume "b = f"
      then obtain t where "t \<in> set (tasks_of w f)" "t_out t = p"
        using col by (auto simp: collides_def list_ex_iff)
      then show False
        using st(2) tasks_of_fresh [of t w f] \<open>b = f\<close> by (auto simp: list_all_iff)
    qed
    then show ?thesis
      using st by simp
  qed
qed

lemma list_all_update_same:
  assumes "i < length ts" "P t' = P (ts ! i)"
  shows "list_all P (ts[i := t']) = list_all P ts"
proof -
  have u: "ts[i := t'] = take i ts @ t' # drop (Suc i) ts"
    using assms(1) by (simp add: upd_conv_take_nth_drop)
  have "ts = take i ts @ ts ! i # drop (Suc i) ts"
    using assms(1) by (rule id_take_nth_drop)
  then have "list_all P ts = list_all P (take i ts @ ts ! i # drop (Suc i) ts)"
    by simp
  then show ?thesis
    using assms(2) by (simp add: u)
qed

lemma list_all_without:
  assumes "i < length ts"
  shows "list_all P ts = (P (ts ! i) \<and> list_all P (without i ts))"
  using set_with_nth [OF assms] by (auto simp: list_all_iff)

lemma kept_step_detached:
  assumes lw: "last_writer w pre b post p c"
    and inv: "invariant w (pre @ b # post) s"
    and k: "kept b p c s" and j: "j < length (detached s)"
  shows "kept b p c (step_detached w j s)"
proof -
  let ?t = "detached s ! j"
  have mem: "?t \<in> set (detached s)"
    using j by simp
  then have ok: "task_ok w ?t"
    using inv by (simp add: invariant_def tasks_ok_def)
  have own: "t_src ?t = b" if "t_out ?t = p"
    using detached_at_path [OF lw inv mem that] .
  have split: "list_all P (detached s) = (P ?t \<and> list_all P (without j (detached s)))" for P
    using j by (rule list_all_without)
  from j show ?thesis
  proof (cases rule: step_detached_cases [where w = w])
    case (rejected e)
    have "\<not> (t_src ?t = b \<and> t_out ?t = p)"
      using own_task_not_rejected [OF lw ok] rejected(1) by blast
    then have "settled_at b p (step_detached w j s) \<Longrightarrow> settled_at b p s"
      using rejected(2) split by (simp add: settled_at_def pending_def)
    then show ?thesis
      using k rejected(2) by (auto simp: kept_def)
  next
    case (advanced st)
    have "list_all (\<lambda>t. \<not> (t_src t = b \<and> t_out t = p)) ((detached s)[j := ?t\<lparr>t_stage := st\<rparr>])
            = list_all (\<lambda>t. \<not> (t_src t = b \<and> t_out t = p)) (detached s)"
      using j by (rule list_all_update_same) simp
    then have "settled_at b p (step_detached w j s) = settled_at b p s"
      using advanced(2) by (simp add: settled_at_def pending_def)
    then show ?thesis
      using k advanced(2) by (simp add: kept_def)
  next
    case (wrote c')
    show ?thesis
    proof (cases "t_out ?t = p")
      case True
      then have "c' = c"
        using own_task_written [OF lw ok own [OF True] True wrote(1)] by simp
      then show ?thesis
        using wrote(2) True by (simp add: kept_def)
    next
      case False
      then have "settled_at b p (step_detached w j s) \<Longrightarrow> settled_at b p s"
        using wrote(2) split by (simp add: settled_at_def pending_def)
      then show ?thesis
        using k wrote(2) False by (auto simp: kept_def)
    qed
  qed
qed

lemma kept_step_awaited:
  assumes lw: "last_writer w pre b post p c" and d: "distinct (pre @ b # post)"
    and inv: "invariant w (pre @ b # post) s"
    and k: "kept b p c s" and a: "awaiting s = Some (f, ts)" and i: "i < length ts"
  shows "kept b p c (step_awaited w f ts i s)"
proof -
  let ?t = "ts ! i"
  have mem: "?t \<in> set ts"
    using i by simp
  then have ok: "task_ok w ?t"
    using inv a by (auto simp: invariant_def tasks_ok_def pending_def)
  have col: "collides w p b"
    using lw by (simp add: last_writer_def)
  have own: "t_src ?t = b" if "t_out ?t = p" "b \<in> set (taken (trace s))"
    using awaited_at_path [OF lw d inv a mem that] .
  have split: "list_all P ts = (P ?t \<and> list_all P (without i ts))" for P
    using i by (rule list_all_without)
  have p: "pending s = ts"
    using a by (simp add: pending_def)
  from i show ?thesis
  proof (cases rule: step_awaited_cases [where w = w and f = f and s = s])
    case (rejected e)
    have nown: "\<not> (t_src ?t = b \<and> t_out ?t = p)"
      using own_task_not_rejected [OF lw ok] rejected(1) by blast
    show ?thesis
      unfolding kept_def
    proof
      assume "settled_at b p (step_awaited w f ts i s)"
      then have "b \<in> set (taken (trace s))
          \<and> list_all (\<lambda>t. \<not> (t_src t = b \<and> t_out t = p)) (detached s @ without i ts)"
        using settled_at_main_loop [OF col] rejected(2) by fastforce
      then have "settled_at b p s"
        using nown split p by (simp add: settled_at_def)
      then show "disk (step_awaited w f ts i s) p = Some c"
        using k rejected(2) by (simp add: kept_def)
    qed
  next
    case (advanced st)
    have "list_all (\<lambda>t. \<not> (t_src t = b \<and> t_out t = p)) (ts[i := ?t\<lparr>t_stage := st\<rparr>])
            = list_all (\<lambda>t. \<not> (t_src t = b \<and> t_out t = p)) ts"
      using i by (rule list_all_update_same) simp
    then have "settled_at b p (step_awaited w f ts i s) = settled_at b p s"
      using advanced(2) p by (simp add: settled_at_def pending_def)
    then show ?thesis
      using k advanced(2) by (simp add: kept_def)
  next
    case (wrote c')
    show ?thesis
      unfolding kept_def
    proof
      assume st: "settled_at b p (step_awaited w f ts i s)"
      then have tk: "b \<in> set (taken (trace s))"
        using wrote(3) by (simp add: settled_at_def)
      show "disk (step_awaited w f ts i s) p = Some c"
      proof (cases "t_out ?t = p")
        case True
        then have "c' = c"
          using own_task_written [OF lw ok own [OF True tk] True wrote(1)] by simp
        then show ?thesis
          using wrote(3) True by simp
      next
        case False
        then have "settled_at b p s"
          using st wrote(3) split p by (simp add: settled_at_def pending_def)
        then show ?thesis
          using k wrote(3) False by (simp add: kept_def)
      qed
    qed
  next
    case (last c')
    show ?thesis
      unfolding kept_def
    proof
      assume "settled_at b p (step_awaited w f ts i s)"
      then have st: "b \<in> set (taken (trace s))"
          "list_all (\<lambda>t. \<not> (t_src t = b \<and> t_out t = p)) (detached s)"
        using settled_at_main_loop [OF col] last(3) by fastforce+
      show "disk (step_awaited w f ts i s) p = Some c"
      proof (cases "t_out ?t = p")
        case True
        then have "c' = c"
          using own_task_written [OF lw ok own [OF True st(1)] True last(1)] by simp
        then show ?thesis
          using last(3) True by simp
      next
        case False
        have "list_all (\<lambda>t. \<not> (t_src t = b \<and> t_out t = p)) [?t]"
          using False by simp
        then have "list_all (\<lambda>t. \<not> (t_src t = b \<and> t_out t = p)) ts"
          using last(2) by simp
        then have "settled_at b p s"
          using st p by (simp add: settled_at_def)
        then show ?thesis
          using k last(3) False by (simp add: kept_def)
      qed
    qed
  qed
qed

lemma kept_step:
  assumes "last_writer w pre b post p c" "distinct (pre @ b # post)"
    and "invariant w (pre @ b # post) s" "kept b p c s"
  shows "kept b p c (step w k s)"
proof (cases w k s rule: step_cases)
  case still
  then show ?thesis
    using assms(4) by simp
next
  case (detached j)
  then show ?thesis
    using kept_step_detached [OF assms(1,3,4)] by simp
next
  case (awaited f ts i)
  then show ?thesis
    using kept_step_awaited [OF assms] by simp
qed

lemma kept_run:
  assumes "last_writer w pre b post p c" "distinct (pre @ b # post)"
  shows "invariant w (pre @ b # post) s \<Longrightarrow> kept b p c s \<Longrightarrow> kept b p c (run w ks s)"
proof (induction ks arbitrary: s)
  case Nil
  then show ?case by simp
next
  case (Cons k ks)
  then show ?case
    using kept_step [OF assms] invariant_step by simp
qed

lemma kept_main:
  assumes col: "collides w p b" and e: "enumerate_files w = Inr files" and ne: "files \<noteq> []"
  shows "kept b p c (main w)"
  unfolding kept_def
proof
  assume "settled_at b p (main w)"
  then have "settled_at b p (main_loop w files
              ((idle w)\<lparr>total := length files,
                        trace := [LogInput (length files), LogOutputDir (AFTER_DIR w)]\<rparr>))"
    using e ne by (simp add: main_def)
  then have "b \<in> set (taken [LogInput (length files), LogOutputDir (AFTER_DIR w)])"
    using settled_at_main_loop [OF col] by fastforce
  then show "disk (main w) p = Some c"
    by simp
qed

lemma last_writer_wins:
  assumes e: "enumerate_files w = Inr (pre @ b # post)"
    and lw: "last_writer w pre b post p c"
    and x: "exit_code (run w schedule (main w)) = Some 0"
  shows "disk (run w schedule (main w)) p = Some c"
proof -
  let ?files = "pre @ b # post"
  let ?s = "run w schedule (main w)"
  have ne: "?files \<noteq> []"
    by simp
  have d: "distinct ?files"
    using e by (rule files_distinct)
  have col: "collides w p b"
    using lw by (simp add: last_writer_def)
  have inv: "invariant w ?files ?s"
    using e ne by (rule reached)
  have "kept b p c ?s"
    using kept_run [OF lw d invariant_main [OF e ne] kept_main [OF col e ne]] .
  moreover have "quiet ?s"
    using x quiet_exit inv by (auto simp: invariant_def)
  moreover have "taken (trace ?s) = ?files"
    using x e by (simp add: exit_taken)
  ultimately show ?thesis
    by (simp add: kept_def settled_at_def quiet_def)
qed

text \<open>
  What holds of the output paths in every world and for every schedule. The output path of
  every derivative is the join of the output directory with the base name of the source
  followed by the target extension, where the base name is the last component of the source
  path (no directory part) without its extension. So two sources with one base name and one
  target extension have one output path. And when the process has ended, a path holds the
  output of the last enumerated source that has a derivative there, provided that derivative
  is written and every earlier source with a derivative there succeeded.
\<close>

theorem output_paths_and_overwriting:
  "map t_out (tasks_of w src)
     = map (\<lambda>(ext, opts). path_join [AFTER_DIR w, baseNameNoExt src @ ext]) (planned src)
   \<and> baseNameNoExt src @ extname src = last_component src
   \<and> \<not> list_ex is_slash (baseNameNoExt src)
   \<and> (baseNameNoExt src = baseNameNoExt src' \<longrightarrow>
        withExt (AFTER_DIR w) (baseNameNoExt src) ext = withExt (AFTER_DIR w) (baseNameNoExt src') ext)
   \<and> (enumerate_files w = Inr (pre @ b # post) \<and> last_writer w pre b post p c
        \<and> exit_code (run w schedule (main w)) = Some 0 \<longrightarrow>
        disk (run w schedule (main w)) p = Some c)"
  using tasks_of_out [of w src] baseNameNoExt_extname [of src] baseNameNoExt_no_slash [of src]
    last_writer_wins [of w pre b post p c schedule]
  by simp

lemma all_served_files: "enumerate_files all_served = Inr ([a_png] @ a_jpg # [])"
  by code_simp

lemma all_served_last_writer:
  "last_writer all_served [a_png] a_jpg [] ''/proj/after/a.webp''
     ''tiny:https://out/raw:/proj/before/a.jpg''"
  by code_simp

lemma all_served_exit:
  "exit_code (run all_served [1, 1, 1, 1, 0, 0, 0, 0, 0, 0, 0, 0] (main all_served)) = Some 0"
  by code_simp

lemma all_served_writes:
  "writes (trace (run all_served [1, 1, 1, 1, 0, 0, 0, 0, 0, 0, 0, 0] (main all_served)))
     = [(a_png, ''/proj/after/a.webp'', ''tiny:https://out/raw:/proj/before/a.png''),
        (a_png, ''/proj/after/a.jpg'', ''tiny:https://out/raw:/proj/before/a.png''),
        (a_jpg, ''/proj/after/a.webp'', ''tiny:https://out/raw:/proj/before/a.jpg'')]"
  by code_simp

lemma a_names:
  "baseNameNoExt a_png = ''a''" "baseNameNoExt a_jpg = ''a''"
  "map t_out (tasks_of all_served a_png) = [''/proj/after/a.jpg'', ''/proj/after/a.webp'']"
  "map t_out (tasks_of all_served a_jpg) = [''/proj/after/a.webp'']"
  by code_simp+

theorem output_paths_and_overwriting_witness:
  "enumerate_files all_served = Inr [a_png, a_jpg]
   \<and> baseNameNoExt a_png = ''a'' \<and> baseNameNoExt a_jpg = ''a''
   \<and> map t_out (tasks_of all_served a_png) = [''/proj/after/a.jpg'', ''/proj/after/a.webp'']
   \<and> map t_out (tasks_of all_served a_jpg) = [''/proj/after/a.webp'']
   \<and> last_writer all_served [a_png] a_jpg [] ''/proj/after/a.webp''
        ''tiny:https://out/raw:/proj/before/a.jpg''
   \<and> exit_code (run all_served [1, 1, 1, 1, 0, 0, 0, 0, 0, 0, 0, 0] (main all_served)) = Some 0
   \<and> disk (run all_served [1, 1, 1, 1, 0, 0, 0, 0, 0, 0, 0, 0] (main all_served))
        ''/proj/after/a.webp'' = Some ''tiny:https://out/raw:/proj/before/a.jpg''"
proof -
  have "disk (run all_served [1, 1, 1, 1, 0, 0, 0, 0, 0, 0, 0, 0] (main all_served))
        ''/proj/after/a.webp'' = Some ''tiny:https://out/raw:/proj/before/a.jpg''"
    using output_paths_and_overwriting [of all_served a_png a_jpg "''.webp''" "[a_png]" a_jpg "[]"
        "''/proj/after/a.webp''" "''tiny:https://out/raw:/proj/before/a.jpg''"
        "[1, 1, 1, 1, 0, 0, 0, 0, 0, 0, 0, 0]"]
      all_served_files all_served_last_writer all_served_exit
    by blast
  then show ?thesis
    using all_served_files all_served_last_writer all_served_exit a_names by simp
qed

text \<open>
  C6, at an input where it fails. The claim is that the output path of a derivative is the
  join of the output directory, the base name of the source and the target extension, so
  that two sources with one base name and one target extension share a path, and that the
  output of the file processed second overwrites that of the first. Here \<^verbatim>\<open>a.png\<close> is
  processed before \<^verbatim>\<open>a.jpg\<close> and both have their WebP derivative at \<^verbatim>\<open>/proj/after/a.webp\<close>. The
  service refuses the upload of the JPEG derivative of \<^verbatim>\<open>a.png\<close>, so \<^verbatim>\<open>main\<close> reports \<^verbatim>\<open>a.png\<close> as
  failed and goes on to \<^verbatim>\<open>a.jpg\<close>, which it reports as written to \<^verbatim>\<open>a.webp\<close>; the WebP derivative
  of \<^verbatim>\<open>a.png\<close>, still running, is written after that of \<^verbatim>\<open>a.jpg\<close>, and the path ends with the
  output of the file processed first.
\<close>

theorem first_file_overwrites_second:
  "enumerate_files one_refused = Inr [a_png, a_jpg]
   \<and> baseNameNoExt a_png = baseNameNoExt a_jpg
   \<and> map t_out (tasks_of one_refused a_png) = [''/proj/after/a.jpg'', ''/proj/after/a.webp'']
   \<and> map t_out (tasks_of one_refused a_jpg) = [''/proj/after/a.webp'']
   \<and> exit_code (run one_refused (replicate 12 0) (main one_refused)) = Some 0
   \<and> taken (trace (run one_refused (replicate 12 0) (main one_refused))) = [a_png, a_jpg]
   \<and> verdicts (trace (run one_refused (replicate 12 0) (main one_refused)))
       = [(a_png, Failed (ShrinkFailed 500 ''{}'')), (a_jpg, Succeeded [''/proj/after/a.webp''])]
   \<and> writes (trace (run one_refused (replicate 12 0) (main one_refused)))
       = [(a_jpg, ''/proj/after/a.webp'', ''tiny:https://out/raw:/proj/before/a.jpg''),
          (a_png, ''/proj/after/a.webp'', ''tiny:https://out/raw:/proj/before/a.png'')]
   \<and> disk (run one_refused (replicate 12 0) (main one_refused)) ''/proj/after/a.webp''
       = Some ''tiny:https://out/raw:/proj/before/a.png''"
  by code_simp

end
